theory Spec2Isabelle
  imports Main "HOL-Library.Multiset"
begin

section \<open>Python values and failures\<close>

text \<open>
  The functions of \<^verbatim>\<open>server.py\<close> modelled here work on Python integers
  (unbounded, type \<^typ>\<open>int\<close>), strings and lists. A Python exception is a value of
  \<open>py_error\<close>, and a function that may raise returns \<open>py_error + 'a\<close>.
  A string that the code examines (the range text of the parser) is the list of its
  Unicode code points, \<open>py_str\<close>; the texts that the planner only copies into its
  requests, and the document text, are character lists. The two \<^verbatim>\<open>ValueError\<close>s
  that the parser can raise are told apart by their messages.
\<close>

type_synonym py_str = "nat list"

datatype value_error =
  Invalid_A1_notation py_str
| Exceeds_digit_limit nat nat

datatype py_error = IndexError | KeyError string | ValueError value_error

text \<open>
  \<^verbatim>\<open>xs[i]\<close> on a Python list: an index below zero counts from the end, and an
  index outside \<^verbatim>\<open>-len(xs) .. len(xs)-1\<close> raises \<^verbatim>\<open>IndexError\<close>.
\<close>

definition subscript :: "'a list \<Rightarrow> int \<Rightarrow> py_error + 'a" where
  "subscript xs i =
     (if 0 \<le> i \<and> i < int (length xs) then Inr (xs ! nat i)
      else if i < 0 \<and> - int (length xs) \<le> i then Inr (xs ! nat (int (length xs) + i))
      else Inl IndexError)"

text \<open>\<^verbatim>\<open>d.get(key, [])\<close> for a key that holds a list.\<close>

definition get_list :: "'a list option \<Rightarrow> 'a list" where
  "get_list v = (case v of None \<Rightarrow> [] | Some xs \<Rightarrow> xs)"

text \<open>\<^verbatim>\<open>d[key]\<close>: a missing key raises \<^verbatim>\<open>KeyError\<close>.\<close>

definition item :: "string \<Rightarrow> 'a option \<Rightarrow> py_error + 'a" where
  "item k v = (case v of None \<Rightarrow> Inl (KeyError k) | Some x \<Rightarrow> Inr x)"

section \<open>The document snapshot\<close>

text \<open>
  The snapshot is the dictionary returned by the Docs API. Only the keys that the
  cell locator reads are kept; a key that may be absent is an \<open>option\<close>.
  \<open>element\<close> is an entry of a cell's \<^verbatim>\<open>content\<close> list; an entry of the body's
  content (\<open>structural_element\<close>) has, in addition, the optional \<^verbatim>\<open>table\<close>.
  A \<open>document\<close> is the list \<^verbatim>\<open>doc.get('body', {}).get('content', [])\<close>, which is
  empty when either key is missing.
\<close>

record element =
  startIndex :: "int option"
  endIndex :: "int option"

record table_cell =
  content :: "element list option"

record table_row =
  tableCells :: "table_cell list option"

record table =
  tableRows :: "table_row list option"

record structural_element = element +
  table :: "table option"

type_synonym document = "structural_element list"

section \<open>Cell locator\<close>

text \<open>
  The body of the loop of \<^verbatim>\<open>_get_cell_content_indexes\<close> for an element that
  matched the anchor. \<open>Inr None\<close> means that no \<^verbatim>\<open>return\<close> was reached, so the
  loop goes on with the next element.
\<close>

definition cell_content_range :: "element list \<Rightarrow> int \<times> int" where
  "cell_content_range cell_content =
     (let start = (case startIndex (hd cell_content) of None \<Rightarrow> 0 | Some s \<Rightarrow> s);
          end = (case endIndex (last cell_content) of None \<Rightarrow> start + 1 | Some e \<Rightarrow> e)
      in (start, end))"

definition table_cell_indexes :: "table \<Rightarrow> int \<Rightarrow> int \<Rightarrow> py_error + (int \<times> int) option" where
  "table_cell_indexes tbl row_index column_index =
     (if row_index < int (length (get_list (tableRows tbl))) then
        (case item ''tableRows'' (tableRows tbl) of
           Inl err \<Rightarrow> Inl err
         | Inr rows \<Rightarrow>
            (case subscript rows row_index of
               Inl err \<Rightarrow> Inl err
             | Inr row \<Rightarrow>
                (if column_index < int (length (get_list (tableCells row))) then
                   (case item ''tableCells'' (tableCells row) of
                      Inl err \<Rightarrow> Inl err
                    | Inr cells \<Rightarrow>
                       (case subscript cells column_index of
                          Inl err \<Rightarrow> Inl err
                        | Inr cell \<Rightarrow>
                           (let cell_content = get_list (content cell)
                            in if cell_content \<noteq> [] then Inr (Some (cell_content_range cell_content))
                               else Inr None)))
                 else Inr None)))
      else Inr None)"

text \<open>
  \<^verbatim>\<open>_get_cell_content_indexes(doc, table_start_index, row_index, column_index)\<close>.
  The result \<open>Inr (Some (start, end))\<close> is the returned pair, \<open>Inr None\<close> is the
  pair \<^verbatim>\<open>(None, None)\<close> returned after the loop (cell not found), \<open>Inl err\<close>
  is an exception.
\<close>

fun get_cell_content_indexes :: "document \<Rightarrow> int \<Rightarrow> int \<Rightarrow> int \<Rightarrow> py_error + (int \<times> int) option" where
  "get_cell_content_indexes [] table_start_index row_index column_index = Inr None"
| "get_cell_content_indexes (el # els) table_start_index row_index column_index =
     (if startIndex el = Some table_start_index \<and> table el \<noteq> None then
        (case table_cell_indexes (the (table el)) row_index column_index of
           Inl err \<Rightarrow> Inl err
         | Inr (Some found) \<Rightarrow> Inr (Some found)
         | Inr None \<Rightarrow> get_cell_content_indexes els table_start_index row_index column_index)
      else get_cell_content_indexes els table_start_index row_index column_index)"

text \<open>The tables that the loop of the locator examines for an anchor, in document
  order, and the shape of a \<open>rows \<times> columns\<close> table.\<close>

definition tables_at :: "document \<Rightarrow> int \<Rightarrow> table list" where
  "tables_at doc table_start_index =
     map (\<lambda>el. the (table el))
       (filter (\<lambda>el. startIndex el = Some table_start_index \<and> table el \<noteq> None) doc)"

definition table_of_size :: "table \<Rightarrow> nat \<Rightarrow> nat \<Rightarrow> bool" where
  "table_of_size tbl rows columns \<longleftrightarrow>
     length (get_list (tableRows tbl)) = rows \<and>
     list_all (\<lambda>r. length (get_list (tableCells r)) = columns) (get_list (tableRows tbl))"

text \<open>The list position that a Python index in range stands for.\<close>

definition position :: "nat \<Rightarrow> int \<Rightarrow> nat" where
  "position n i = nat (if i < 0 then int n + i else i)"

section \<open>Batch mutation planner\<close>

text \<open>
  An entry of \<^verbatim>\<open>args['cells']\<close> and an entry of \<^verbatim>\<open>cell_data\<close>, which adds
  the resolved offsets to it. The key \<^verbatim>\<open>text\<close> is the field \<open>cell_text\<close>.
\<close>

record cell_request =
  row :: int
  column :: int
  cell_text :: string

record cell_datum = cell_request +
  start_idx :: int
  end_idx :: int

text \<open>The two kinds of request that the planner puts into the batch.\<close>

datatype request =
  DeleteContentRange int int
| InsertText int string

text \<open>
  What a call of \<^verbatim>\<open>write_table_bulk\<close> does: an exception, the error text
  returned when no cell was found, or one \<^verbatim>\<open>batchUpdate\<close> call with the request
  list, reported with the number of cells written.
\<close>

datatype outcome =
  Raises py_error
| NoCellsFound
| Submits "request list" nat

text \<open>The first loop: every cell is looked up in the same snapshot; a cell that is
  not found is left out.\<close>

fun collect_cell_data :: "document \<Rightarrow> int \<Rightarrow> cell_request list \<Rightarrow> py_error + cell_datum list" where
  "collect_cell_data doc table_start_index [] = Inr []"
| "collect_cell_data doc table_start_index (cell # cells) =
     (case get_cell_content_indexes doc table_start_index (row cell) (column cell) of
        Inl err \<Rightarrow> Inl err
      | Inr found \<Rightarrow>
         (case collect_cell_data doc table_start_index cells of
            Inl err \<Rightarrow> Inl err
          | Inr cell_data \<Rightarrow>
             (case found of
                None \<Rightarrow> Inr cell_data
              | Some (s, e) \<Rightarrow>
                 Inr (\<lparr>row = row cell, column = column cell, cell_text = cell_text cell,
                       start_idx = s, end_idx = e\<rparr> # cell_data))))"

text \<open>The entry that one requested cell adds to \<^verbatim>\<open>cell_data\<close>: none when the
  cell is not found.\<close>

definition resolve :: "document \<Rightarrow> int \<Rightarrow> cell_request \<Rightarrow> cell_datum list" where
  "resolve doc table_start_index cell =
     (case get_cell_content_indexes doc table_start_index (row cell) (column cell) of
        Inr (Some (s, e)) \<Rightarrow>
          [\<lparr>row = row cell, column = column cell, cell_text = cell_text cell,
            start_idx = s, end_idx = e\<rparr>]
      | _ \<Rightarrow> [])"

text \<open>
  \<^verbatim>\<open>cell_data.sort(key=lambda x: x['start_idx'], reverse=True)\<close>: Python's sort
  is stable, also with \<^verbatim>\<open>reverse=True\<close>, so entries with equal keys keep their
  order. \<open>sort_key\<close> is a stable insertion sort; the negated key makes it descending.
\<close>

definition sort_descending :: "cell_datum list \<Rightarrow> cell_datum list" where
  "sort_descending cell_data = sort_key (\<lambda>x. - start_idx x) cell_data"

text \<open>The second loop, which appends the requests of one cell after the other.\<close>

fun build_requests :: "bool \<Rightarrow> cell_datum list \<Rightarrow> request list" where
  "build_requests replace_existing [] = []"
| "build_requests replace_existing (cell # cells) =
     (if replace_existing \<and> end_idx cell > start_idx cell + 1
      then [DeleteContentRange (start_idx cell) (end_idx cell - 1)] else [])
     @ [InsertText (start_idx cell) (cell_text cell)]
     @ build_requests replace_existing cells"

definition write_table_bulk :: "document \<Rightarrow> int \<Rightarrow> cell_request list \<Rightarrow> bool \<Rightarrow> outcome" where
  "write_table_bulk doc table_start_index cells replace_existing =
     (case collect_cell_data doc table_start_index cells of
        Inl err \<Rightarrow> Raises err
      | Inr cell_data \<Rightarrow>
         if cell_data = [] then NoCellsFound
         else Submits (build_requests replace_existing (sort_descending cell_data))
                (length cell_data))"

section \<open>Executing a batch\<close>

text \<open>
  Modelled from the spec: the Mutation Executor is the external \<^verbatim>\<open>batchUpdate\<close>
  service, which the repository calls and does not contain. Following sections 4.4 and
  6 of the specification, it applies the requests in list order, each one to the
  document text produced by the requests before it: a delete removes the positions of
  a non-empty half-open range, an insert puts its text in front of the given position.
  The text is a character list whose position \<open>i\<close> is the document offset \<open>i\<close>; a
  request that points outside the text is refused (\<open>None\<close>).
\<close>

fun apply_request :: "string \<Rightarrow> request \<Rightarrow> string option" where
  "apply_request d (DeleteContentRange s e) =
     (if 0 \<le> s \<and> s < e \<and> e \<le> int (length d) then Some (take (nat s) d @ drop (nat e) d)
      else None)"
| "apply_request d (InsertText p t) =
     (if 0 \<le> p \<and> p \<le> int (length d) then Some (take (nat p) d @ t @ drop (nat p) d)
      else None)"

fun apply_requests :: "string \<Rightarrow> request list \<Rightarrow> string option" where
  "apply_requests d [] = Some d"
| "apply_requests d (r # rs) =
     (case apply_request d r of None \<Rightarrow> None | Some d' \<Rightarrow> apply_requests d' rs)"

text \<open>
  The result that section 4.4 of the specification asks of a batch, in the
  specification's words: the document in which every target's content stands at the
  location the target has in the original snapshot \<open>d\<close>. The targets are taken in
  ascending order of their offsets and \<open>pos\<close> is the offset of \<open>d\<close> up to which the
  result is already written: the original text between \<open>pos\<close> and the target's start
  is kept, the target's text follows, and the original text goes on from \<open>kept_from\<close>,
  which is the trailing position \<open>e - 1\<close> of a replaced range \<open>[s, e)\<close> with a body, and
  \<open>s\<close> itself when nothing is removed.
\<close>

definition slice :: "string \<Rightarrow> int \<Rightarrow> int \<Rightarrow> string" where
  "slice d a b = take (nat b - nat a) (drop (nat a) d)"

definition kept_from :: "bool \<Rightarrow> cell_datum \<Rightarrow> int" where
  "kept_from replace_existing c =
     (if replace_existing \<and> end_idx c > start_idx c + 1 then end_idx c - 1 else start_idx c)"

fun splice :: "bool \<Rightarrow> string \<Rightarrow> int \<Rightarrow> cell_datum list \<Rightarrow> string" where
  "splice replace_existing d pos [] = drop (nat pos) d"
| "splice replace_existing d pos (c # cs) =
     slice d pos (start_idx c) @ cell_text c @ splice replace_existing d (kept_from replace_existing c) cs"

text \<open>Two targets \<open>[s1, e1)\<close> and \<open>[s2, e2)\<close> overlap, as section 4.4 of the
  specification writes it.\<close>

definition overlap :: "cell_datum \<Rightarrow> cell_datum \<Rightarrow> bool" where
  "overlap c1 c2 \<longleftrightarrow> start_idx c1 < end_idx c2 \<and> start_idx c2 < end_idx c1"

fun pairwise_disjoint :: "cell_datum list \<Rightarrow> bool" where
  "pairwise_disjoint [] \<longleftrightarrow> True"
| "pairwise_disjoint (c # cs) \<longleftrightarrow> list_all (\<lambda>c'. \<not> overlap c c') cs \<and> pairwise_disjoint cs"

text \<open>A target lies in the text \<open>d\<close> and is not empty (section 3: a cell owns a range
  with \<open>end > start\<close>).\<close>

definition in_text :: "string \<Rightarrow> cell_datum \<Rightarrow> bool" where
  "in_text d c \<longleftrightarrow> 0 \<le> start_idx c \<and> start_idx c < end_idx c \<and> end_idx c \<le> int (length d)"

text \<open>The inserts of a request list, offset and text, in list order. The planner
  emits one insert for each target, at the target's start offset, as the last request
  of the target's group.\<close>

fun inserts :: "request list \<Rightarrow> (int \<times> string) list" where
  "inserts [] = []"
| "inserts (DeleteContentRange s e # rs) = inserts rs"
| "inserts (InsertText p t # rs) = (p, t) # inserts rs"

section \<open>Range notation parser\<close>

text \<open>
  What the parser takes from the Python interpreter and the repository does not contain:
  the Unicode tables behind \<^verbatim>\<open>str.upper\<close> and \<^verbatim>\<open>\d\<close>, and the limit on
  the length of a decimal string that \<^verbatim>\<open>int\<close> converts. They are parameters of
  the model. \<open>str_upper c\<close> is \<^verbatim>\<open>chr(c).upper()\<close> for a code point from 128 on (one to
  three code points), \<open>decimal_digit c\<close> is the digit value of such a code point when it
  is a decimal digit, and \<open>int_max_str_digits\<close> is
  \<^verbatim>\<open>sys.get_int_max_str_digits()\<close>: 4300 unless configured, and 0 for no limit (also
  the interpreters that have no such limit). On the code points below 128 the tables are
  those of ASCII and are part of the definitions.
\<close>

record python =
  str_upper :: "nat \<Rightarrow> py_str"
  decimal_digit :: "nat \<Rightarrow> nat option"
  int_max_str_digits :: nat

text \<open>The code points of a text of ASCII characters.\<close>

definition str_of :: "string \<Rightarrow> py_str" where
  "str_of s = map of_char s"

text \<open>The character class \<^verbatim>\<open>[A-Z]\<close>; the class \<^verbatim>\<open>\d\<close> of the decimal digits, which
  for a \<^verbatim>\<open>str\<close> pattern are those of Unicode, with their values; and
  \<^verbatim>\<open>str.upper\<close>, which maps character by character.\<close>

definition is_AZ :: "nat \<Rightarrow> bool" where
  "is_AZ c \<longleftrightarrow> 65 \<le> c \<and> c \<le> 90"

definition digit_value :: "python \<Rightarrow> nat \<Rightarrow> nat option" where
  "digit_value py c =
     (if 48 \<le> c \<and> c \<le> 57 then Some (c - 48)
      else if c < 128 then None
      else decimal_digit py c)"

definition is_digit :: "python \<Rightarrow> nat \<Rightarrow> bool" where
  "is_digit py c \<longleftrightarrow> digit_value py c \<noteq> None"

definition upper_char :: "python \<Rightarrow> nat \<Rightarrow> py_str" where
  "upper_char py c =
     (if 97 \<le> c \<and> c \<le> 122 then [c - 32]
      else if c < 128 then [c]
      else str_upper py c)"

definition upper :: "python \<Rightarrow> py_str \<Rightarrow> py_str" where
  "upper py s = concat (map (upper_char py) s)"

text \<open>\<^verbatim>\<open>s.split(sep)\<close> for a separator of one character: the pieces between the
  separators, at least one piece.\<close>

fun split :: "nat \<Rightarrow> py_str \<Rightarrow> py_str list" where
  "split sep [] = [[]]"
| "split sep (c # cs) =
     (if c = sep then [] # split sep cs
      else (c # hd (split sep cs)) # tl (split sep cs))"

text \<open>
  \<^verbatim>\<open>re.match(r'^([A-Z]*)(\d*):?([A-Z]*)(\d*)$', s)\<close>. Every part of the pattern is
  greedy, and no two neighbouring parts share a character, so the longest choice for each
  part is the first one the matcher tries and the only one that can reach the end:
  giving a character back leaves one that the next part cannot take either
  (\<open>re_match_complete\<close> below proves that a text of the pattern's shape is matched).
  Without \<^verbatim>\<open>re.MULTILINE\<close>, \<^verbatim>\<open>$\<close> holds at the end of the text and also in front
  of a line feed (code point 10) that is the last character. The colon is the code point
  58. The result is the four groups.
\<close>

definition re_match :: "python \<Rightarrow> py_str \<Rightarrow> (py_str \<times> py_str \<times> py_str \<times> py_str) option" where
  "re_match py s =
     (let start_col = takeWhile is_AZ s; s1 = dropWhile is_AZ s;
          start_row = takeWhile (is_digit py) s1; s2 = dropWhile (is_digit py) s1;
          s3 = (if s2 \<noteq> [] \<and> hd s2 = 58 then tl s2 else s2);
          end_col = takeWhile is_AZ s3; s4 = dropWhile is_AZ s3;
          end_row = takeWhile (is_digit py) s4; s5 = dropWhile (is_digit py) s4
      in if s5 = [] \<or> s5 = [10] then Some (start_col, start_row, end_col, end_row)
         else None)"

text \<open>The local function \<^verbatim>\<open>col_to_index\<close>; 65 is \<^verbatim>\<open>ord('A')\<close>.\<close>

definition col_to_index :: "py_str \<Rightarrow> int option" where
  "col_to_index col =
     (if col = [] then None
      else Some (foldl (\<lambda>result char. result * 26 + (int char - 65 + 1)) 0 col - 1))"

text \<open>
  \<^verbatim>\<open>int(s)\<close> for a run \<open>s\<close> of decimal digits, which is what the groups
  \<^verbatim>\<open>(\d*)\<close> hold when they are not empty: the interpreter raises
  \<^verbatim>\<open>ValueError\<close> when it has a limit and the run is longer than both the limit and
  640 digits, and gives the decimal value otherwise.
\<close>

definition exceeds_limit :: "python \<Rightarrow> nat \<Rightarrow> bool" where
  "exceeds_limit py n \<longleftrightarrow> 0 < int_max_str_digits py \<and> 640 < n \<and> int_max_str_digits py < n"

definition digits_value :: "python \<Rightarrow> py_str \<Rightarrow> int" where
  "digits_value py s =
     foldl (\<lambda>v c. v * 10 + int (case digit_value py c of Some d \<Rightarrow> d | None \<Rightarrow> 0)) 0 s"

definition py_int :: "python \<Rightarrow> py_str \<Rightarrow> py_error + int" where
  "py_int py s =
     (if exceeds_limit py (length s)
      then Inl (ValueError (Exceeds_digit_limit (int_max_str_digits py) (length s)))
      else Inr (digits_value py s))"

text \<open>The \<^verbatim>\<open>GridRange\<close> dictionary; a key that was not set is \<open>None\<close>.\<close>

record grid_range =
  sheetId :: int
  startColumnIndex :: "int option"
  endColumnIndex :: "int option"
  startRowIndex :: "int option"
  endRowIndex :: "int option"

text \<open>The text that is matched: the piece between the first \<^verbatim>\<open>!\<close> (code point 33)
  and the next one, when there is a \<^verbatim>\<open>!\<close>.\<close>

definition strip_sheet :: "py_str \<Rightarrow> py_error + py_str" where
  "strip_sheet range_str =
     (if 33 \<in> set range_str then subscript (split 33 range_str) 1
      else Inr range_str)"

text \<open>
  \<^verbatim>\<open>_parse_a1_range(range_str, sheet_id)\<close>. The column keys are set first and cannot
  raise; then \<^verbatim>\<open>startRowIndex\<close> and \<^verbatim>\<open>endRowIndex\<close> are set in this order, and
  the first \<^verbatim>\<open>int\<close> that raises ends the call.
\<close>

definition parse_a1_range :: "python \<Rightarrow> py_str \<Rightarrow> int \<Rightarrow> py_error + grid_range" where
  "parse_a1_range py range_str sheet_id =
     (case strip_sheet range_str of
        Inl err \<Rightarrow> Inl err
      | Inr range_str \<Rightarrow>
         (case re_match py (upper py range_str) of
            None \<Rightarrow> Inl (ValueError (Invalid_A1_notation range_str))
          | Some (start_col, start_row, end_col, end_row) \<Rightarrow>
             (case (if start_row \<noteq> [] then map_sum id (\<lambda>v. Some (v - 1)) (py_int py start_row)
                    else Inr None) of
                Inl err \<Rightarrow> Inl err
              | Inr start_row_index \<Rightarrow>
                 (case (if end_row \<noteq> [] then map_sum id Some (py_int py end_row)
                        else if start_row \<noteq> [] then map_sum id Some (py_int py start_row)
                        else Inr None) of
                    Inl err \<Rightarrow> Inl err
                  | Inr end_row_index \<Rightarrow>
                     Inr \<lparr>sheetId = sheet_id,
                          startColumnIndex = (if start_col \<noteq> [] then col_to_index start_col else None),
                          endColumnIndex =
                            (if end_col \<noteq> [] then map_option (\<lambda>i. i + 1) (col_to_index end_col)
                             else if start_col \<noteq> [] then map_option (\<lambda>i. i + 1) (col_to_index start_col)
                             else None),
                          startRowIndex = start_row_index,
                          endRowIndex = end_row_index\<rparr>))))"

text \<open>The value a call returns, and \<open>None\<close> when it raises.\<close>

definition returned :: "py_error + 'a \<Rightarrow> 'a option" where
  "returned r = (case r of Inl err \<Rightarrow> None | Inr v \<Rightarrow> Some v)"

text \<open>A text at which a run of characters of the class \<open>P\<close> ends: it is empty or
  its first character is not in \<open>P\<close>.\<close>

definition stops :: "('a \<Rightarrow> bool) \<Rightarrow> 'a list \<Rightarrow> bool" where
  "stops P ys \<longleftrightarrow> (case ys of [] \<Rightarrow> True | y # _ \<Rightarrow> \<not> P y)"




text \<open>
  The accepted forms of a range text as section 4.1 of the specification lists them,
  for a text in upper case without its sheet name: a single cell (\<^verbatim>\<open>A1\<close>), a
  rectangle (\<^verbatim>\<open>A1:D10\<close>), an open column range (\<^verbatim>\<open>A:D\<close>) and an open row range
  (\<^verbatim>\<open>5:10\<close>). \<open>token s\<close> cuts the letters and the digits at the front of \<open>s\<close>.
\<close>

definition token :: "python \<Rightarrow> py_str \<Rightarrow> py_str \<times> py_str \<times> py_str" where
  "token py s =
     (takeWhile is_AZ s, takeWhile (is_digit py) (dropWhile is_AZ s),
      dropWhile (is_digit py) (dropWhile is_AZ s))"

definition accepted_form :: "python \<Rightarrow> py_str \<Rightarrow> bool" where
  "accepted_form py s \<longleftrightarrow>
     (case token py s of (c1, r1, rest) \<Rightarrow>
        if rest = [] then c1 \<noteq> [] \<and> r1 \<noteq> []
        else hd rest = 58 \<and>
          (case token py (tl rest) of (c2, r2, rest') \<Rightarrow>
             rest' = [] \<and>
             ((c1 \<noteq> [] \<and> r1 \<noteq> [] \<and> c2 \<noteq> [] \<and> r2 \<noteq> [])
              \<or> (c1 \<noteq> [] \<and> r1 = [] \<and> c2 \<noteq> [] \<and> r2 = [])
              \<or> (c1 = [] \<and> r1 \<noteq> [] \<and> c2 = [] \<and> r2 \<noteq> []))))"

text \<open>Two interpreters for the examples: one whose tables have nothing beyond ASCII, and
  one that also knows the letter \<open>U+00DF\<close>, whose upper case is \<^verbatim>\<open>SS\<close>. Both have the
  default limit of 4300 digits.\<close>

definition ascii_python :: python where
  "ascii_python = \<lparr>str_upper = (\<lambda>c. [c]), decimal_digit = (\<lambda>c. None), int_max_str_digits = 4300\<rparr>"

definition sharp_s_python :: python where
  "sharp_s_python =
     \<lparr>str_upper = (\<lambda>c. if c = 223 then [83, 83] else [c]), decimal_digit = (\<lambda>c. None),
      int_max_str_digits = 4300\<rparr>"

section \<open>Example snapshots\<close>

text \<open>A snapshot with one table at the anchor \<open>a\<close>; every cell is given by the range of
  its single content element.\<close>

definition cell_of :: "int \<times> int \<Rightarrow> table_cell" where
  "cell_of r = \<lparr>content = Some [\<lparr>startIndex = Some (fst r), endIndex = Some (snd r)\<rparr>]\<rparr>"

definition table_with :: "(int \<times> int) list list \<Rightarrow> table" where
  "table_with rows = \<lparr>tableRows = Some (map (\<lambda>r. \<lparr>tableCells = Some (map cell_of r)\<rparr>) rows)\<rparr>"

definition one_table_doc :: "int \<Rightarrow> (int \<times> int) list list \<Rightarrow> document" where
  "one_table_doc a rows = [\<lparr>startIndex = Some a, endIndex = None, table = Some (table_with rows)\<rparr>]"

lemmas example_defs = one_table_doc_def table_with_def cell_of_def tables_at_def
  table_of_size_def get_list_def

lemmas locator_defs = table_cell_indexes_def item_def get_list_def subscript_def
  cell_content_range_def

section \<open>Properties of the cell locator\<close>

lemma locate_no_table:
  "tables_at doc a = [] \<Longrightarrow> get_cell_content_indexes doc a r c = Inr None"
  by (induction doc) (auto simp: tables_at_def split: if_splits)

lemma locate_one_table:
  "tables_at doc a = [t] \<Longrightarrow> get_cell_content_indexes doc a r c = table_cell_indexes t r c"
proof (induction doc)
  case Nil
  then show ?case by (simp add: tables_at_def)
next
  case (Cons el els)
  show ?case
  proof (cases "startIndex el = Some a \<and> table el \<noteq> None")
    case True
    with Cons.prems have t: "the (table el) = t" and rest: "tables_at els a = []"
      by (simp_all add: tables_at_def)
    from rest have "get_cell_content_indexes els a r c = Inr None"
      by (rule locate_no_table)
    with True t show ?thesis
      by (auto split: sum.splits option.splits)
  next
    case False
    with Cons.prems have "tables_at els a = [t]"
      by (auto simp: tables_at_def)
    with Cons.IH False show ?thesis by auto
  qed
qed

lemma subscript_in_range:
  "- int (length xs) \<le> i \<Longrightarrow> i < int (length xs) \<Longrightarrow>
   subscript xs i = Inr (xs ! position (length xs) i)"
  by (auto simp: subscript_def position_def)

lemma position_less:
  "- int n \<le> i \<Longrightarrow> i < int n \<Longrightarrow> position n i < n"
  by (auto simp: position_def)

lemma table_cell_indexes_row_beyond:
  "int (length (get_list (tableRows t))) \<le> r \<Longrightarrow> table_cell_indexes t r c = Inr None"
  by (simp add: table_cell_indexes_def)

lemma table_cell_indexes_column_beyond:
  assumes "table_of_size t rows columns" "int columns \<le> c" "- int rows \<le> r"
  shows "table_cell_indexes t r c = Inr None"
proof (cases "r < int rows")
  case False
  with assms(1) show ?thesis
    by (simp add: table_cell_indexes_row_beyond table_of_size_def)
next
  case True
  from assms(1) have len: "length (get_list (tableRows t)) = rows"
    by (simp add: table_of_size_def)
  with True assms(3) obtain rs where rs: "tableRows t = Some rs" "length rs = rows"
    by (cases "tableRows t") (auto simp: get_list_def)
  from True assms(3) rs have sub: "subscript rs r = Inr (rs ! position rows r)"
    using subscript_in_range[of rs r] by simp
  from True assms(3) rs have "rs ! position rows r \<in> set rs"
    using position_less[of rows r] by simp
  with assms(1) rs have "length (get_list (tableCells (rs ! position rows r))) = columns"
    by (simp add: table_of_size_def get_list_def list_all_iff)
  with assms(2) sub rs True show ?thesis
    by (simp add: table_cell_indexes_def item_def get_list_def)
qed

lemma table_cell_indexes_found:
  assumes "tableRows t = Some rs" "- int (length rs) \<le> r" "r < int (length rs)"
    and "tableCells (rs ! position (length rs) r) = Some cs"
    and "- int (length cs) \<le> c" "c < int (length cs)"
    and "content (cs ! position (length cs) c) = Some cc" "cc \<noteq> []"
  shows "table_cell_indexes t r c = Inr (Some (cell_content_range cc))"
  using assms subscript_in_range[of rs r] subscript_in_range[of cs c]
  by (simp add: table_cell_indexes_def item_def get_list_def)

text \<open>
  C8: in a document that has a \<open>rows \<times> columns\<close> table at the anchor, and no other table
  there, a lookup with \<open>row \<ge> rows\<close> or \<open>column \<ge> columns\<close> returns "not found" (the pair
  of \<^verbatim>\<open>None\<close>s) and does not raise. The indices are the 0-based row and column
  indices of the tool's interface, so neither is negative.
\<close>

theorem locate_beyond_bounds:
  assumes "tables_at doc a = [t]" and "table_of_size t rows columns"
    and "0 \<le> r" and "0 \<le> c"
    and "int rows \<le> r \<or> int columns \<le> c"
  shows "get_cell_content_indexes doc a r c = Inr None"
proof -
  from assms(3,5) have "int rows \<le> r \<or> (int columns \<le> c \<and> - int rows \<le> r)"
    by auto
  with assms(1,2) show ?thesis
    using locate_one_table[of doc a t r c] table_cell_indexes_row_beyond[of t r c]
      table_cell_indexes_column_beyond[of t rows columns c r]
    by (auto simp: table_of_size_def)
qed

text \<open>The lookups of \<open>(row = rows, column = 0)\<close> and of \<open>(row = 0, column = columns)\<close> in a
  \<open>2 \<times> 1\<close> table.\<close>

theorem locate_beyond_bounds_witness:
  "tables_at (one_table_doc 2 [[(5, 9)], [(9, 11)]]) 2 = [table_with [[(5, 9)], [(9, 11)]]]
   \<and> table_of_size (table_with [[(5, 9)], [(9, 11)]]) 2 1
   \<and> get_cell_content_indexes (one_table_doc 2 [[(5, 9)], [(9, 11)]]) 2 2 0 = Inr None
   \<and> get_cell_content_indexes (one_table_doc 2 [[(5, 9)], [(9, 11)]]) 2 0 1 = Inr None"
proof -
  have h1: "tables_at (one_table_doc 2 [[(5, 9)], [(9, 11)]]) 2 = [table_with [[(5, 9)], [(9, 11)]]]"
    by (simp add: example_defs)
  have h2: "table_of_size (table_with [[(5, 9)], [(9, 11)]]) 2 1"
    by (simp add: example_defs)
  have z: "(0::int) \<le> 2" "(0::int) \<le> 0" "(0::int) \<le> 1"
    by simp_all
  have h3: "int 2 \<le> 2 \<or> int 1 \<le> 0" and h4: "int 2 \<le> 0 \<or> int 1 \<le> 1"
    by simp_all
  have "get_cell_content_indexes (one_table_doc 2 [[(5, 9)], [(9, 11)]]) 2 2 0 = Inr None"
    by (rule locate_beyond_bounds[OF h1 h2 z(1) z(2) h3])
  moreover have "get_cell_content_indexes (one_table_doc 2 [[(5, 9)], [(9, 11)]]) 2 0 1 = Inr None"
    by (rule locate_beyond_bounds[OF h1 h2 z(2) z(3) h4])
  ultimately show ?thesis using h1 h2 by blast
qed

text \<open>
  C9, as stated: with a non-empty table at the anchor, every negative row or column index
  makes the locator return the content range of a cell counted from the end. It fails for
  an index below \<open>-rows\<close>: in a \<open>1 \<times> 1\<close> table the row index \<open>-2\<close> raises
  \<^verbatim>\<open>IndexError\<close>, and no range is returned.
\<close>

theorem locate_negative_index_counterexample:
  "tables_at (one_table_doc 2 [[(5, 9)]]) 2 = [table_with [[(5, 9)]]]
   \<and> table_of_size (table_with [[(5, 9)]]) 1 1
   \<and> (- 2 :: int) < 0
   \<and> get_cell_content_indexes (one_table_doc 2 [[(5, 9)]]) 2 (- 2) 0 = Inl IndexError"
  by (simp add: example_defs locator_defs)

text \<open>
  C9, amended: the bounds check guards the upper bound only. In a document whose only
  table at the anchor has the rows \<open>rs\<close>, a row index \<open>r\<close> with \<open>-len(rs) \<le> r < len(rs)\<close>
  selects the row at \<open>position (len rs) r\<close>, which counts from the end when \<open>r\<close> is
  negative, and a column index does the same in the cells of that row. When one of the
  two is negative and the cell so selected has content, the locator does not report
  "not found": it returns the content range of that cell, which is what the call with
  the two positions counted from the front returns.
\<close>

theorem locate_negative_index:
  assumes "tables_at doc a = [t]" and "tableRows t = Some rs"
    and "- int (length rs) \<le> r" "r < int (length rs)"
    and "tableCells (rs ! position (length rs) r) = Some cs"
    and "- int (length cs) \<le> c" "c < int (length cs)"
    and "content (cs ! position (length cs) c) = Some cc" "cc \<noteq> []"
    and "r < 0 \<or> c < 0"
  shows "get_cell_content_indexes doc a r c = Inr (Some (cell_content_range cc))
       \<and> get_cell_content_indexes doc a r c
         = get_cell_content_indexes doc a (int (position (length rs) r)) (int (position (length cs) c))"
proof -
  have 1: "table_cell_indexes t r c = Inr (Some (cell_content_range cc))"
    using assms(2-9) by (rule table_cell_indexes_found)
  let ?r = "int (position (length rs) r)" and ?c = "int (position (length cs) c)"
  have pr: "position (length rs) ?r = position (length rs) r"
    "- int (length rs) \<le> ?r" "?r < int (length rs)"
    using assms(3,4) by (auto simp: position_def)
  have pc: "position (length cs) ?c = position (length cs) c"
    "- int (length cs) \<le> ?c" "?c < int (length cs)"
    using assms(6,7) by (auto simp: position_def)
  have 2: "table_cell_indexes t ?r ?c = Inr (Some (cell_content_range cc))"
    using assms(2,5,8,9) pr pc table_cell_indexes_found[of t rs ?r cs ?c cc] by simp
  from 1 2 assms(1) show ?thesis
    by (simp add: locate_one_table)
qed

text \<open>The lookup of \<open>(-1, -1)\<close> in a \<open>2 \<times> 2\<close> table finds the last cell of the last row.\<close>

theorem locate_negative_index_witness:
  "get_cell_content_indexes (one_table_doc 2 [[(5, 9), (9, 11)], [(12, 14), (14, 20)]]) 2 (- 1) (- 1)
     = Inr (Some (14, 20))
   \<and> get_cell_content_indexes (one_table_doc 2 [[(5, 9), (9, 11)], [(12, 14), (14, 20)]]) 2 (- 1) (- 1)
     = get_cell_content_indexes (one_table_doc 2 [[(5, 9), (9, 11)], [(12, 14), (14, 20)]]) 2 1 1"
proof -
  let ?rows = "[[(5, 9), (9, 11)], [(12, 14), (14, 20 :: int)]] :: (int \<times> int) list list"
  let ?rs = "map (\<lambda>r. \<lparr>tableCells = Some (map cell_of r)\<rparr>) ?rows"
  let ?cs = "map cell_of [(12, 14), (14, 20 :: int)]"
  let ?cc = "[\<lparr>startIndex = Some 14, endIndex = Some (20 :: int)\<rparr>]"
  have h1: "tables_at (one_table_doc 2 ?rows) 2 = [table_with ?rows]"
    by (simp add: example_defs)
  have h2: "tableRows (table_with ?rows) = Some ?rs"
    by (simp add: example_defs)
  have h3: "- int (length ?rs) \<le> - 1" and h4: "- 1 < int (length ?rs)"
    by simp_all
  have h5: "tableCells (?rs ! position (length ?rs) (- 1)) = Some ?cs"
    by (simp add: position_def)
  have h6: "- int (length ?cs) \<le> - 1" and h7: "- 1 < int (length ?cs)"
    by simp_all
  have h8: "content (?cs ! position (length ?cs) (- 1)) = Some ?cc"
    by (simp add: position_def cell_of_def)
  have h9: "?cc \<noteq> []" and h10: "(- 1 :: int) < 0 \<or> (- 1 :: int) < 0"
    by simp_all
  have p: "int (position (length ?rs) (- 1)) = 1" "int (position (length ?cs) (- 1)) = 1"
    by (simp_all add: position_def)
  have r: "cell_content_range ?cc = (14, 20)"
    by (simp add: cell_content_range_def)
  from locate_negative_index[OF h1 h2 h3 h4 h5 h6 h7 h8 h9 h10]
  show ?thesis unfolding p r .
qed

section \<open>Properties of the planner's request list\<close>

lemma collect_cell_data_resolve:
  "collect_cell_data doc a cells = Inr cd \<Longrightarrow> cd = concat (map (resolve doc a) cells)"
  by (induction cells arbitrary: cd)
     (auto simp: resolve_def split: sum.splits option.splits)

lemma collect_cell_data_returns:
  "list_all (\<lambda>c. \<not> isl (get_cell_content_indexes doc a (row c) (column c))) cells \<Longrightarrow>
   collect_cell_data doc a cells = Inr (concat (map (resolve doc a) cells))"
  by (induction cells) (auto simp: resolve_def split: sum.splits option.splits)

lemma build_requests_append:
  "build_requests rep (xs @ ys) = build_requests rep xs @ build_requests rep ys"
  by (induction xs) simp_all

lemma build_requests_groups:
  "build_requests rep cs = concat (map (\<lambda>c. build_requests rep [c]) cs)"
  by (induction cs) simp_all

lemma inserts_append: "inserts (xs @ ys) = inserts xs @ inserts ys"
  by (induction xs rule: inserts.induct) simp_all

lemma inserts_build_requests:
  "inserts (build_requests rep cs) = map (\<lambda>c. (start_idx c, cell_text c)) cs"
  by (induction cs) (simp_all add: inserts_append)

lemma write_table_bulk_submits:
  "collect_cell_data doc a cells = Inr cd \<Longrightarrow> cd \<noteq> [] \<Longrightarrow>
   write_table_bulk doc a cells rep = Submits (build_requests rep (sort_descending cd)) (length cd)"
  by (simp add: write_table_bulk_def)

lemma mset_sort_descending: "mset (sort_descending cd) = mset cd"
  by (simp add: sort_descending_def)

lemma sort_descending_sorted:
  "sorted_wrt (\<ge>) (map start_idx (sort_descending cd))"
proof -
  have "sorted (map (\<lambda>x. - start_idx x) (sort_descending cd))"
    unfolding sort_descending_def by (rule sorted_sort_key)
  then show ?thesis
    by (simp add: sorted_wrt_map)
qed

lemma sort_descending_stable:
  "filter (\<lambda>c. start_idx c = k) (sort_descending cd) = filter (\<lambda>c. start_idx c = k) cd"
proof -
  have "filter (\<lambda>c. - start_idx c = - k) (sort_descending cd) = filter (\<lambda>c. - start_idx c = - k) cd"
    unfolding sort_descending_def by (rule sort_key_stable)
  then show ?thesis by simp
qed

lemma descending_distinct_strict:
  "sorted_wrt (\<ge>) (xs :: int list) \<Longrightarrow> distinct xs \<Longrightarrow> sorted_wrt (>) xs"
  by (induction xs) (auto simp: order_less_le)

lemma sort_descending_strict:
  assumes "distinct (map start_idx cd)"
  shows "sorted_wrt (>) (map start_idx (sort_descending cd))"
proof -
  have "mset (map start_idx (sort_descending cd)) = mset (map start_idx cd)"
    by (simp add: mset_sort_descending)
  with assms have "distinct (map start_idx (sort_descending cd))"
    by (metis distinct_count_atmost_1 set_mset_mset)
  with sort_descending_sorted[of cd] show ?thesis
    by (rule descending_distinct_strict)
qed

lemmas planner_defs = write_table_bulk_def sort_descending_def resolve_def

text \<open>
  C2, as stated: the groups of requests follow each other in strictly descending order of
  their targets' start offsets, for every list of resolvable targets. It fails when a cell
  is requested twice: both groups start at offset 5.
\<close>

theorem planner_descending_counterexample:
  "write_table_bulk (one_table_doc 2 [[(5, 9)]]) 2
     [\<lparr>row = 0, column = 0, cell_text = ''a''\<rparr>, \<lparr>row = 0, column = 0, cell_text = ''b''\<rparr>] True
     = Submits [DeleteContentRange 5 8, InsertText 5 ''a'', DeleteContentRange 5 8, InsertText 5 ''b''] 2
   \<and> \<not> sorted_wrt (>) (map fst (inserts
        [DeleteContentRange 5 8, InsertText 5 ''a'', DeleteContentRange 5 8, InsertText 5 ''b'']))"
  by (simp add: example_defs locator_defs planner_defs)

text \<open>
  C2, amended: the emitted requests are the concatenation of one group for each resolved
  target, the group being what the planner emits for that target alone; the groups stand
  in descending order of the targets' start offsets, the order is strictly descending
  when the start offsets of the resolved targets are pairwise different, and targets with
  the same start offset keep their input order.
\<close>

theorem planner_descending:
  assumes "collect_cell_data doc a cells = Inr cd" and "cd \<noteq> []"
  shows "write_table_bulk doc a cells rep
           = Submits (concat (map (\<lambda>c. build_requests rep [c]) (sort_descending cd))) (length cd)
       \<and> mset (sort_descending cd) = mset cd
       \<and> sorted_wrt (\<ge>) (map start_idx (sort_descending cd))
       \<and> (distinct (map start_idx cd) \<longrightarrow> sorted_wrt (>) (map start_idx (sort_descending cd)))
       \<and> (\<forall>k. filter (\<lambda>c. start_idx c = k) (sort_descending cd)
              = filter (\<lambda>c. start_idx c = k) cd)"
  using write_table_bulk_submits[OF assms, of rep] build_requests_groups[of rep "sort_descending cd"]
    mset_sort_descending[of cd] sort_descending_sorted[of cd] sort_descending_strict[of cd]
    sort_descending_stable[of _ cd]
  by simp

text \<open>Targets with the start offsets \<open>[10, 50, 30]\<close> give the groups of 50, 30 and 10.\<close>

theorem planner_descending_witness:
  "write_table_bulk (one_table_doc 2 [[(10, 15), (30, 36), (50, 52)]]) 2
     [\<lparr>row = 0, column = 0, cell_text = ''a''\<rparr>, \<lparr>row = 0, column = 2, cell_text = ''c''\<rparr>,
      \<lparr>row = 0, column = 1, cell_text = ''b''\<rparr>] True
     = Submits [DeleteContentRange 50 51, InsertText 50 ''c'', DeleteContentRange 30 35, InsertText 30 ''b'',
                DeleteContentRange 10 14, InsertText 10 ''a''] 3
   \<and> map start_idx
        [\<lparr>row = 0, column = 0, cell_text = ''a'', start_idx = 10, end_idx = 15\<rparr>,
         \<lparr>row = 0, column = 2, cell_text = ''c'', start_idx = 50, end_idx = 52\<rparr>,
         \<lparr>row = 0, column = 1, cell_text = ''b'', start_idx = 30, end_idx = 36\<rparr>] = [10, 50, 30]
   \<and> map start_idx (sort_descending
        [\<lparr>row = 0, column = 0, cell_text = ''a'', start_idx = 10, end_idx = 15\<rparr>,
         \<lparr>row = 0, column = 2, cell_text = ''c'', start_idx = 50, end_idx = 52\<rparr>,
         \<lparr>row = 0, column = 1, cell_text = ''b'', start_idx = 30, end_idx = 36\<rparr>]) = [50, 30, 10]
   \<and> sorted_wrt (>) (map start_idx (sort_descending
        [\<lparr>row = 0, column = 0, cell_text = ''a'', start_idx = 10, end_idx = 15\<rparr>,
         \<lparr>row = 0, column = 2, cell_text = ''c'', start_idx = 50, end_idx = 52\<rparr>,
         \<lparr>row = 0, column = 1, cell_text = ''b'', start_idx = 30, end_idx = 36\<rparr>]))"
proof -
  let ?doc = "one_table_doc 2 [[(10, 15), (30, 36), (50, 52)]]"
  let ?cells = "[\<lparr>row = 0, column = 0, cell_text = ''a''\<rparr>, \<lparr>row = 0, column = 2, cell_text = ''c''\<rparr>,
      \<lparr>row = 0, column = 1, cell_text = ''b''\<rparr>]"
  let ?cd = "[\<lparr>row = 0, column = 0, cell_text = ''a'', start_idx = 10, end_idx = 15\<rparr>,
         \<lparr>row = 0, column = 2, cell_text = ''c'', start_idx = 50, end_idx = 52\<rparr>,
         \<lparr>row = 0, column = 1, cell_text = ''b'', start_idx = 30, end_idx = 36\<rparr>]"
  have h1: "collect_cell_data ?doc 2 ?cells = Inr ?cd"
    by (simp add: example_defs locator_defs)
  have h2: "?cd \<noteq> []" by simp
  have s: "sort_descending ?cd = [?cd ! 1, ?cd ! 2, ?cd ! 0]"
    by (simp add: sort_descending_def)
  have d: "distinct (map start_idx ?cd)" by simp
  have g: "concat (map (\<lambda>c. build_requests True [c]) (sort_descending ?cd))
        = [DeleteContentRange 50 51, InsertText 50 ''c'', DeleteContentRange 30 35, InsertText 30 ''b'',
                DeleteContentRange 10 14, InsertText 10 ''a'']"
    unfolding s by simp
  have m: "map start_idx (sort_descending ?cd) = [50, 30, 10]"
    unfolding s by simp
  from planner_descending[OF h1 h2, of True] d show ?thesis
    unfolding g m by simp
qed

text \<open>
  C3: in replace mode the group of a target over \<open>[s, e)\<close> is \<open>DeleteRange(s, e-1)\<close> followed
  by \<open>InsertAt(s, text)\<close> when \<open>e > s+1\<close>, so that position \<open>e-1\<close> is never deleted, and only
  \<open>InsertAt(s, text)\<close> when \<open>e \<le> s+1\<close>; the request list consists of these groups.
\<close>

theorem planner_replace_group:
  assumes "collect_cell_data doc a cells = Inr cd" and "cd \<noteq> []"
  shows "write_table_bulk doc a cells True
           = Submits (concat (map (\<lambda>c. if end_idx c > start_idx c + 1
                                        then [DeleteContentRange (start_idx c) (end_idx c - 1),
                                              InsertText (start_idx c) (cell_text c)]
                                        else [InsertText (start_idx c) (cell_text c)])
                              (sort_descending cd)))
               (length cd)"
proof -
  have "build_requests True xs
      = concat (map (\<lambda>c. if end_idx c > start_idx c + 1
                          then [DeleteContentRange (start_idx c) (end_idx c - 1),
                                InsertText (start_idx c) (cell_text c)]
                          else [InsertText (start_idx c) (cell_text c)]) xs)" for xs
    by (induction xs) simp_all
  with write_table_bulk_submits[OF assms, of True] show ?thesis by simp
qed

text \<open>A replace over \<open>[20, 25)\<close> gives \<open>DeleteRange(20, 24)\<close> and \<open>InsertAt(20, text)\<close>; a
  range \<open>[25, 26)\<close> without a body gives the insert only.\<close>

theorem planner_replace_group_witness:
  "write_table_bulk (one_table_doc 2 [[(20, 25), (25, 26)]]) 2
     [\<lparr>row = 0, column = 0, cell_text = ''new''\<rparr>, \<lparr>row = 0, column = 1, cell_text = ''x''\<rparr>] True
     = Submits [InsertText 25 ''x'', DeleteContentRange 20 24, InsertText 20 ''new''] 2"
proof -
  let ?doc = "one_table_doc 2 [[(20, 25), (25, 26)]]"
  let ?cells = "[\<lparr>row = 0, column = 0, cell_text = ''new''\<rparr>, \<lparr>row = 0, column = 1, cell_text = ''x''\<rparr>]"
  let ?cd = "[\<lparr>row = 0, column = 0, cell_text = ''new'', start_idx = 20, end_idx = 25\<rparr>,
              \<lparr>row = 0, column = 1, cell_text = ''x'', start_idx = 25, end_idx = 26\<rparr>]"
  have h1: "collect_cell_data ?doc 2 ?cells = Inr ?cd"
    by (simp add: example_defs locator_defs)
  have h2: "?cd \<noteq> []" by simp
  have s: "sort_descending ?cd = [?cd ! 1, ?cd ! 0]"
    by (simp add: sort_descending_def)
  from planner_replace_group[OF h1 h2] show ?thesis
    unfolding s by simp
qed

text \<open>
  C4, as stated: targets whose ranges overlap, or that share a start offset, make the planner
  return an error and no request list. The planner has no such check: the overlapping
  ranges \<open>[10, 20)\<close> and \<open>[15, 25)\<close> are ordered and submitted, and so is a cell that is
  requested twice.
\<close>

theorem planner_overlap_counterexample:
  "(10 :: int) < 25 \<and> (15 :: int) < 20
   \<and> write_table_bulk (one_table_doc 2 [[(10, 20), (15, 25)]]) 2
       [\<lparr>row = 0, column = 0, cell_text = ''a''\<rparr>, \<lparr>row = 0, column = 1, cell_text = ''b''\<rparr>] True
     = Submits [DeleteContentRange 15 24, InsertText 15 ''b'', DeleteContentRange 10 19, InsertText 10 ''a''] 2
   \<and> write_table_bulk (one_table_doc 2 [[(5, 9)]]) 2
       [\<lparr>row = 0, column = 0, cell_text = ''a''\<rparr>, \<lparr>row = 0, column = 0, cell_text = ''b''\<rparr>] True
     = Submits [DeleteContentRange 5 8, InsertText 5 ''a'', DeleteContentRange 5 8, InsertText 5 ''b''] 2"
  by (simp add: example_defs locator_defs planner_defs)

text \<open>
  C4, amended: the planner compares no two targets. Whenever the lookups return and at
  least one target is resolved, overlapping or tied targets included, it submits a request
  list with one insert for each resolved target, in descending order of the start offsets;
  targets with the same start offset keep their input order.
\<close>

theorem planner_no_overlap_check:
  assumes "collect_cell_data doc a cells = Inr cd" and "cd \<noteq> []"
  shows "\<exists>ops. write_table_bulk doc a cells rep = Submits ops (length cd)
             \<and> inserts ops = map (\<lambda>c. (start_idx c, cell_text c)) (sort_descending cd)
             \<and> sorted_wrt (\<ge>) (map start_idx (sort_descending cd))
             \<and> (\<forall>k. filter (\<lambda>c. start_idx c = k) (sort_descending cd)
                    = filter (\<lambda>c. start_idx c = k) cd)"
  using write_table_bulk_submits[OF assms, of rep] inserts_build_requests[of rep "sort_descending cd"]
    sort_descending_sorted[of cd] sort_descending_stable[of _ cd]
  by simp

text \<open>The overlapping targets \<open>[10, 20)\<close> and \<open>[15, 25)\<close>.\<close>

theorem planner_no_overlap_check_witness:
  "\<exists>ops. write_table_bulk (one_table_doc 2 [[(10, 20), (15, 25)]]) 2
       [\<lparr>row = 0, column = 0, cell_text = ''a''\<rparr>, \<lparr>row = 0, column = 1, cell_text = ''b''\<rparr>] True
        = Submits ops 2
      \<and> inserts ops = [(15, ''b''), (10, ''a'')]"
proof -
  let ?doc = "one_table_doc 2 [[(10, 20), (15, 25)]]"
  let ?cells = "[\<lparr>row = 0, column = 0, cell_text = ''a''\<rparr>, \<lparr>row = 0, column = 1, cell_text = ''b''\<rparr>]"
  let ?cd = "[\<lparr>row = 0, column = 0, cell_text = ''a'', start_idx = 10, end_idx = 20\<rparr>,
              \<lparr>row = 0, column = 1, cell_text = ''b'', start_idx = 15, end_idx = 25\<rparr>]"
  have h1: "collect_cell_data ?doc 2 ?cells = Inr ?cd"
    by (simp add: example_defs locator_defs)
  have h2: "?cd \<noteq> []" by simp
  have s: "sort_descending ?cd = [?cd ! 1, ?cd ! 0]"
    by (simp add: sort_descending_def)
  from planner_no_overlap_check[OF h1 h2, of True] obtain ops where
    o: "write_table_bulk ?doc 2 ?cells True = Submits ops (length ?cd)"
    and i: "inserts ops = map (\<lambda>c. (start_idx c, cell_text c)) (sort_descending ?cd)"
    by blast
  from i have "inserts ops = [(15, ''b''), (10, ''a'')]"
    unfolding s by simp
  with o show ?thesis by simp
qed

text \<open>
  C5, as stated: either every requested target resolves and contributes, or an error is
  returned and nothing is submitted. In a \<open>1 \<times> 1\<close> table the request for row 1 does not
  resolve, and the planner submits the requests of the other target alone.
\<close>

theorem planner_partial_counterexample:
  "get_cell_content_indexes (one_table_doc 2 [[(5, 9)]]) 2 1 0 = Inr None
   \<and> write_table_bulk (one_table_doc 2 [[(5, 9)]]) 2
       [\<lparr>row = 0, column = 0, cell_text = ''a''\<rparr>, \<lparr>row = 1, column = 0, cell_text = ''b''\<rparr>] True
     = Submits [DeleteContentRange 5 8, InsertText 5 ''a''] 1"
  by (simp add: example_defs locator_defs planner_defs)

lemma resolve_empty_iff:
  "\<not> isl (get_cell_content_indexes doc a (row c) (column c)) \<Longrightarrow>
   resolve doc a c = [] \<longleftrightarrow> get_cell_content_indexes doc a (row c) (column c) = Inr None"
  by (auto simp: resolve_def split: sum.splits option.splits)

text \<open>
  C5, amended: when no lookup raises, the planner returns the error text, and submits
  nothing, only if none of the requested cells is found; otherwise it submits the requests
  of exactly the cells that were found, and reports their number: a cell that is not found
  is skipped.
\<close>

theorem planner_skips_unresolved:
  assumes "list_all (\<lambda>c. \<not> isl (get_cell_content_indexes doc a (row c) (column c))) cells"
  shows "write_table_bulk doc a cells rep
         = (if list_all (\<lambda>c. get_cell_content_indexes doc a (row c) (column c) = Inr None) cells
            then NoCellsFound
            else Submits (build_requests rep (sort_descending (concat (map (resolve doc a) cells))))
                   (length (filter (\<lambda>c. get_cell_content_indexes doc a (row c) (column c) \<noteq> Inr None) cells)))"
proof -
  let ?cd = "concat (map (resolve doc a) cells)"
  have c: "collect_cell_data doc a cells = Inr ?cd"
    using assms by (rule collect_cell_data_returns)
  have e: "?cd = [] \<longleftrightarrow> list_all (\<lambda>c. get_cell_content_indexes doc a (row c) (column c) = Inr None) cells"
    using assms by (induction cells) (auto simp: resolve_empty_iff)
  have l: "length ?cd = length (filter (\<lambda>c. get_cell_content_indexes doc a (row c) (column c) \<noteq> Inr None) cells)"
    using assms by (induction cells) (auto simp: resolve_def split: sum.splits option.splits)
  from c e l show ?thesis
    by (simp add: write_table_bulk_def)
qed

text \<open>One of two requested cells is found.\<close>

theorem planner_skips_unresolved_witness:
  "write_table_bulk (one_table_doc 2 [[(5, 9)]]) 2
     [\<lparr>row = 0, column = 0, cell_text = ''a''\<rparr>, \<lparr>row = 1, column = 0, cell_text = ''b''\<rparr>] False
   = Submits [InsertText 5 ''a''] 1"
proof -
  let ?doc = "one_table_doc 2 [[(5, 9)]]"
  let ?cells = "[\<lparr>row = 0, column = 0, cell_text = ''a''\<rparr>, \<lparr>row = 1, column = 0, cell_text = ''b''\<rparr>]"
  have l: "get_cell_content_indexes ?doc 2 0 0 = Inr (Some (5, 9))"
    "get_cell_content_indexes ?doc 2 1 0 = Inr None"
    by (simp_all add: example_defs locator_defs)
  have h: "list_all (\<lambda>c. \<not> isl (get_cell_content_indexes ?doc 2 (row c) (column c))) ?cells"
    by (simp add: l)
  from planner_skips_unresolved[OF h, of False] show ?thesis
    by (simp add: l resolve_def sort_descending_def)
qed

section \<open>Executing the planner's request list\<close>

lemma apply_requests_append:
  "apply_requests d (xs @ ys)
   = (case apply_requests d xs of None \<Rightarrow> None | Some d' \<Rightarrow> apply_requests d' ys)"
  by (induction xs arbitrary: d) (auto split: option.splits)

text \<open>The text in front of an offset that lies before the first target is kept.\<close>

lemma splice_front:
  assumes "0 \<le> k" "k \<le> int (length d)"
    and "xs \<noteq> [] \<Longrightarrow> k \<le> start_idx (hd xs)"
  shows "splice rep d 0 xs = take (nat k) d @ splice rep d k xs"
proof (cases xs)
  case Nil
  then show ?thesis by simp
next
  case (Cons x xs')
  with assms(3) have "k \<le> start_idx x" by simp
  with assms(1) have "nat (start_idx x) = nat k + (nat (start_idx x) - nat k)"
    by simp
  then have "take (nat (start_idx x)) d = take (nat k) d @ take (nat (start_idx x) - nat k) (drop (nat k) d)"
    by (metis take_add)
  with Cons show ?thesis
    by (simp add: slice_def)
qed

text \<open>The requests of one target, applied to a text that agrees with the snapshot up to
  the target's end.\<close>

lemma apply_group:
  assumes "in_text d c" and "d' = take (nat (kept_from rep c)) d @ rest"
  shows "apply_requests d' (build_requests rep [c])
         = Some (take (nat (start_idx c)) d @ cell_text c @ rest)"
proof -
  let ?s = "start_idx c" and ?e = "end_idx c" and ?k = "kept_from rep c"
  from assms(1) have b: "0 \<le> ?s" "?s < ?e" "?e \<le> int (length d)"
    by (simp_all add: in_text_def)
  have k: "?s \<le> ?k" "?k \<le> int (length d)" "0 \<le> ?k"
    using b by (auto simp: kept_from_def)
  have lk: "length (take (nat ?k) d) = nat ?k"
    using k by simp
  have sk: "nat ?s \<le> nat ?k"
    using k by simp
  have ts: "take (nat ?s) d' = take (nat ?s) d"
    using assms(2) lk sk by (simp add: min_absorb1)
  have len: "int (length d') \<ge> ?k"
    using assms(2) lk by simp
  show ?thesis
  proof (cases "rep \<and> ?e > ?s + 1")
    case True
    then have kk: "?k = ?e - 1" by (simp add: kept_from_def)
    have dk: "drop (nat (?e - 1)) d' = rest"
      using assms(2) lk kk by simp
    have l2: "length (take (nat ?s) d) = nat ?s"
      using b by simp
    from True b len kk ts dk l2 show ?thesis
      by (simp add: min_def)
  next
    case False
    then have kk: "?k = ?s" by (auto simp: kept_from_def)
    have dk: "drop (nat ?s) d' = rest"
      using assms(2) lk kk by simp
    from False b len kk ts dk show ?thesis
      by auto
  qed
qed

lemma build_requests_snoc:
  "build_requests rep (xs @ [c]) = build_requests rep xs @ build_requests rep [c]"
  by (induction xs) simp_all

lemma apply_separated:
  assumes "\<forall>c\<in>set ds. in_text d c"
    and "sorted_wrt (\<lambda>c c'. end_idx c' \<le> start_idx c) ds"
  shows "apply_requests d (build_requests rep ds) = Some (splice rep d 0 (rev ds))"
  using assms
proof (induction ds rule: rev_induct)
  case Nil
  show ?case by simp
next
  case (snoc c ds)
  from snoc.prems have it: "in_text d c" and sep: "\<forall>x\<in>set ds. end_idx c \<le> start_idx x"
    and ih: "apply_requests d (build_requests rep ds) = Some (splice rep d 0 (rev ds))"
    using snoc.IH by (simp_all add: sorted_wrt_append)
  let ?k = "kept_from rep c"
  from it have k: "0 \<le> ?k" "?k \<le> int (length d)" "?k \<le> end_idx c"
    by (auto simp: in_text_def kept_from_def)
  have "rev ds \<noteq> [] \<Longrightarrow> ?k \<le> start_idx (hd (rev ds))"
  proof -
    assume "rev ds \<noteq> []"
    then have "hd (rev ds) \<in> set ds" by (metis hd_in_set set_rev)
    with sep k(3) show ?thesis by fastforce
  qed
  with k have fr: "splice rep d 0 (rev ds) = take (nat ?k) d @ splice rep d ?k (rev ds)"
    by (intro splice_front) simp_all
  have "apply_requests (splice rep d 0 (rev ds)) (build_requests rep [c])
        = Some (take (nat (start_idx c)) d @ cell_text c @ splice rep d ?k (rev ds))"
    using it fr by (rule apply_group)
  moreover have "splice rep d 0 (rev (ds @ [c]))
        = take (nat (start_idx c)) d @ cell_text c @ splice rep d ?k (rev ds)"
    by (simp add: slice_def)
  ultimately show ?case
    using ih by (simp add: build_requests_snoc apply_requests_append del: build_requests.simps)
qed

lemma collect_cell_data_no_raise:
  "collect_cell_data doc a cells = Inr cd \<Longrightarrow>
   list_all (\<lambda>c. \<not> isl (get_cell_content_indexes doc a (row c) (column c))) cells"
  by (induction cells arbitrary: cd) (auto split: sum.splits option.splits)

lemma collect_cell_data_permuted:
  assumes "collect_cell_data doc a cells = Inr cd" and "mset cells' = mset cells"
  shows "\<exists>cd'. collect_cell_data doc a cells' = Inr cd' \<and> mset cd' = mset cd"
proof -
  from assms(2) have "set cells' = set cells"
    by (rule mset_eq_setD)
  with collect_cell_data_no_raise[OF assms(1)]
  have "list_all (\<lambda>c. \<not> isl (get_cell_content_indexes doc a (row c) (column c))) cells'"
    by (simp add: list_all_iff)
  then have c': "collect_cell_data doc a cells' = Inr (concat (map (resolve doc a) cells'))"
    by (rule collect_cell_data_returns)
  have "mset (concat (map (resolve doc a) cells')) = (\<Sum>c\<in>#mset cells'. mset (resolve doc a c))"
    by (simp add: mset_concat comp_def flip: sum_mset_sum_list)
  also have "\<dots> = (\<Sum>c\<in>#mset cells. mset (resolve doc a c))"
    by (simp add: assms(2))
  also have "\<dots> = mset (concat (map (resolve doc a) cells))"
    by (simp add: mset_concat comp_def flip: sum_mset_sum_list)
  finally show ?thesis
    using c' collect_cell_data_resolve[OF assms(1)] by simp
qed

lemma overlap_sym: "overlap x y \<longleftrightarrow> overlap y x"
  by (auto simp: overlap_def)

lemma disjoint_members:
  "pairwise_disjoint cd \<Longrightarrow> x \<in> set cd \<Longrightarrow> y \<in> set cd \<Longrightarrow> start_idx x \<noteq> start_idx y \<Longrightarrow>
   \<not> overlap x y"
  by (induction cd) (auto simp: list_all_iff overlap_sym)

lemma disjoint_distinct_starts:
  "list_all (in_text d) cd \<Longrightarrow> pairwise_disjoint cd \<Longrightarrow> distinct (map start_idx cd)"
  by (induction cd) (auto simp: list_all_iff overlap_def in_text_def)

lemma sort_descending_separated:
  assumes "\<forall>c\<in>set xs. in_text d c" and "distinct (map start_idx xs)"
    and "\<forall>x\<in>set xs. \<forall>y\<in>set xs. start_idx x \<noteq> start_idx y \<longrightarrow> \<not> overlap x y"
  shows "sorted_wrt (\<lambda>c c'. end_idx c' \<le> start_idx c) (sort_descending xs)"
proof -
  have "sorted_wrt (\<lambda>c c'. start_idx c' < start_idx c) (sort_descending xs)"
    using sort_descending_strict[OF assms(2)] by (simp add: sorted_wrt_map)
  moreover have "end_idx c' \<le> start_idx c"
    if "c \<in> set (sort_descending xs)" "c' \<in> set (sort_descending xs)" "start_idx c' < start_idx c"
    for c c'
  proof -
    from that have m: "c \<in> set xs" "c' \<in> set xs"
      by (simp_all add: sort_descending_def)
    with that(3) assms(3) have "\<not> overlap c c'" by fastforce
    moreover from m assms(1) have "start_idx c < end_idx c" by (simp add: in_text_def)
    ultimately show ?thesis using that(3) by (simp add: overlap_def)
  qed
  ultimately show ?thesis
    by (rule sorted_wrt_mono_rel[rotated])
qed

lemma rev_sort_descending:
  assumes "distinct (map start_idx xs)"
  shows "rev (sort_descending xs) = sort_key start_idx xs"
proof (rule sort_key_inj_key_eq[symmetric])
  show "mset xs = mset (rev (sort_descending xs))"
    by (simp add: mset_sort_descending)
  show "inj_on start_idx (set xs)"
    using assms by (simp add: distinct_map)
  have "sorted_wrt (\<ge>) (map start_idx (sort_descending xs))"
    by (rule sort_descending_sorted)
  then have "sorted_wrt (\<le>) (rev (map start_idx (sort_descending xs)))"
    by (simp add: sorted_wrt_rev)
  then show "sorted (map start_idx (rev (sort_descending xs)))"
    by (simp add: rev_map)
qed

lemma apply_sorted:
  assumes "\<forall>c\<in>set xs. in_text d c" and "distinct (map start_idx xs)"
    and "\<forall>x\<in>set xs. \<forall>y\<in>set xs. start_idx x \<noteq> start_idx y \<longrightarrow> \<not> overlap x y"
  shows "apply_requests d (build_requests rep (sort_descending xs))
         = Some (splice rep d 0 (sort_key start_idx xs))"
proof -
  have "\<forall>c\<in>set (sort_descending xs). in_text d c"
    using assms(1) by (simp add: sort_descending_def)
  then have "apply_requests d (build_requests rep (sort_descending xs))
             = Some (splice rep d 0 (rev (sort_descending xs)))"
    using sort_descending_separated[OF assms] by (rule apply_separated)
  then show ?thesis
    by (simp add: rev_sort_descending[OF assms(2)])
qed

text \<open>
  C1: the targets are the entries \<open>cd\<close> that the planner resolves for the requested
  cells; they lie in the snapshot text \<open>d\<close>, are not empty, and their ranges are pairwise
  disjoint. Then the planner submits a request list, and executing it in list order, each
  request against the text left by the requests before it, succeeds and gives the
  snapshot with every target's text at the target's own place: the original text up to
  the target's start, the target's text, and the original text from the kept trailing
  position on (\<open>splice\<close>). This holds for every order \<open>cells'\<close> in which the same cells
  are requested and for texts of any length.
\<close>

theorem planner_places_targets:
  assumes "collect_cell_data doc a cells = Inr cd" and "cd \<noteq> []"
    and "list_all (in_text d) cd" and "pairwise_disjoint cd"
    and "mset cells' = mset cells"
  shows "\<exists>ops. write_table_bulk doc a cells' rep = Submits ops (length cd)
             \<and> apply_requests d ops = Some (splice rep d 0 (sort_key start_idx cd))"
proof -
  from collect_cell_data_permuted[OF assms(1,5)] obtain cd'
    where c': "collect_cell_data doc a cells' = Inr cd'" and m: "mset cd' = mset cd"
    by blast
  from m have s: "set cd' = set cd" and l: "length cd' = length cd"
    by (auto dest: mset_eq_setD mset_eq_length)
  from m have "mset (map start_idx cd') = mset (map start_idx cd)"
    by simp
  then have dd: "distinct (map start_idx cd') \<longleftrightarrow> distinct (map start_idx cd)"
    by (metis distinct_count_atmost_1 set_mset_mset)
  have d: "distinct (map start_idx cd)"
    using assms(3,4) by (rule disjoint_distinct_starts)
  have "apply_requests d (build_requests rep (sort_descending cd'))
        = Some (splice rep d 0 (sort_key start_idx cd'))"
  proof (rule apply_sorted)
    show "\<forall>c\<in>set cd'. in_text d c"
      using assms(3) s by (simp add: list_all_iff)
    show "distinct (map start_idx cd')"
      using d dd by simp
    show "\<forall>x\<in>set cd'. \<forall>y\<in>set cd'. start_idx x \<noteq> start_idx y \<longrightarrow> \<not> overlap x y"
      using disjoint_members[OF assms(4)] s by blast
  qed
  moreover have "sort_key start_idx cd' = sort_key start_idx cd"
    using m d s by (intro sort_key_eq_sort_key) (simp_all add: distinct_map)
  moreover from s assms(2) have "cd' \<noteq> []" by auto
  ultimately show ?thesis
    using c' l by (simp add: write_table_bulk_def)
qed

text \<open>Two cells over \<open>[3, 6)\<close> and \<open>[8, 12)\<close>, the later cell requested first; one
  replacement text is as long as the body it replaces, the other one is shorter.\<close>

theorem planner_places_targets_witness:
  "\<exists>ops. write_table_bulk (one_table_doc 2 [[(3, 6), (8, 12)]]) 2
            [\<lparr>row = 0, column = 1, cell_text = ''Z''\<rparr>, \<lparr>row = 0, column = 0, cell_text = ''XY''\<rparr>] True
          = Submits ops 2
        \<and> apply_requests ''0123456789abcdefghij'' ops = Some ''012XY567Zbcdefghij''"
proof -
  let ?doc = "one_table_doc 2 [[(3, 6), (8, 12)]]"
  let ?cells = "[\<lparr>row = 0, column = 0, cell_text = ''XY''\<rparr>, \<lparr>row = 0, column = 1, cell_text = ''Z''\<rparr>]"
  let ?cells' = "[\<lparr>row = 0, column = 1, cell_text = ''Z''\<rparr>, \<lparr>row = 0, column = 0, cell_text = ''XY''\<rparr>]"
  let ?cd = "[\<lparr>row = 0, column = 0, cell_text = ''XY'', start_idx = 3, end_idx = 6\<rparr>,
              \<lparr>row = 0, column = 1, cell_text = ''Z'', start_idx = 8, end_idx = 12\<rparr>]"
  let ?d = "''0123456789abcdefghij''"
  have h1: "collect_cell_data ?doc 2 ?cells = Inr ?cd"
    by (simp add: example_defs locator_defs)
  have h2: "?cd \<noteq> []" by simp
  have h3: "list_all (in_text ?d) ?cd"
    by (simp add: in_text_def)
  have h4: "pairwise_disjoint ?cd"
    by (simp add: overlap_def)
  have h5: "mset ?cells' = mset ?cells"
    by (simp add: add_mset_commute)
  have e: "splice True ?d 0 (sort_key start_idx ?cd) = ''012XY567Zbcdefghij''"
    by (simp add: slice_def kept_from_def)
  have n: "length ?cd = 2" by simp
  from planner_places_targets[OF h1 h2 h3 h4 h5, of True] show ?thesis
    unfolding e n .
qed

section \<open>Properties of the range notation parser\<close>

lemma takeWhile_run: "list_all P xs \<Longrightarrow> stops P ys \<Longrightarrow> takeWhile P (xs @ ys) = xs"
  by (induction xs) (auto simp: stops_def split: list.splits)

lemma dropWhile_run: "list_all P xs \<Longrightarrow> stops P ys \<Longrightarrow> dropWhile P (xs @ ys) = ys"
  by (induction xs) (auto simp: stops_def split: list.splits)

lemma stops_Cons: "stops P (y # ys) \<longleftrightarrow> \<not> P y"
  by (simp add: stops_def)

lemma stops_append: "stops P (xs @ ys) \<longleftrightarrow> (if xs = [] then stops P ys else stops P xs)"
  by (cases xs) (simp_all add: stops_def)

lemma digit_not_AZ: "is_digit py c \<Longrightarrow> \<not> is_AZ c"
  and AZ_not_digit: "is_AZ c \<Longrightarrow> \<not> is_digit py c"
  by (auto simp: is_digit_def digit_value_def is_AZ_def split: if_splits)

lemma colon_class: "\<not> is_AZ 58" "\<not> is_digit py 58"
  and newline_class: "\<not> is_AZ 10" "\<not> is_digit py 10"
  and bang_class: "\<not> is_AZ 33" "\<not> is_digit py 33"
  by (simp_all add: is_digit_def digit_value_def is_AZ_def)

lemma AZ_not_colon: "list_all is_AZ xs \<Longrightarrow> xs \<noteq> [] \<Longrightarrow> hd xs \<noteq> 58"
  using colon_class(1) by (cases xs) auto

lemma digits_stop_AZ: "list_all (is_digit py) xs \<Longrightarrow> stops is_AZ xs"
  by (cases xs) (auto simp: stops_def dest: digit_not_AZ)

lemma AZ_stop_digits: "list_all is_AZ xs \<Longrightarrow> stops (is_digit py) xs"
  by (cases xs) (auto simp: stops_def dest: AZ_not_digit)

text \<open>The matcher on a text whose parts cannot take a character of their neighbours.\<close>

lemma re_match_groups:
  assumes "list_all is_AZ c1" "list_all (is_digit py) r1" "list_all is_AZ c2" "list_all (is_digit py) r2"
    and "sep = [] \<or> sep = [58]" and "nl = [] \<or> nl = [10]"
    and "sep = [] \<Longrightarrow> (c2 \<noteq> [] \<longrightarrow> r1 \<noteq> []) \<and> (r2 \<noteq> [] \<longrightarrow> c2 \<noteq> [])"
  shows "re_match py (c1 @ r1 @ sep @ c2 @ r2 @ nl) = Some (c1, r1, c2, r2)"
proof -
  let ?s1 = "r1 @ sep @ c2 @ r2 @ nl" and ?s2 = "sep @ c2 @ r2 @ nl"
  let ?s3 = "c2 @ r2 @ nl" and ?s4 = "r2 @ nl"
  have nlA: "stops is_AZ nl" and nlD: "stops (is_digit py) nl"
    using assms(6) newline_class by (auto simp: stops_def)
  have st4: "stops is_AZ ?s4"
    using assms(4) nlA digits_stop_AZ[of py r2] by (simp add: stops_append)
  have st2: "stops (is_digit py) ?s2"
  proof (cases "sep = []")
    case False
    with assms(5) colon_class show ?thesis by (simp add: stops_Cons)
  next
    case True
    show ?thesis
    proof (cases "c2 = []")
      case False
      with True assms(3) AZ_stop_digits[of c2 py] show ?thesis by (simp add: stops_append)
    next
      case c2: True
      with True assms(7) have "r2 = []" by simp
      with True c2 nlD show ?thesis by simp
    qed
  qed
  have st1: "stops is_AZ ?s1"
  proof (cases "r1 = []")
    case False
    with assms(2) digits_stop_AZ[of py r1] show ?thesis by (simp add: stops_append)
  next
    case True
    with assms(5,7) st4 colon_class show ?thesis
      by (auto simp: stops_Cons stops_append)
  qed
  have 1: "takeWhile is_AZ (c1 @ ?s1) = c1" "dropWhile is_AZ (c1 @ ?s1) = ?s1"
    using assms(1) st1 by (simp_all add: takeWhile_run dropWhile_run)
  have 2: "takeWhile (is_digit py) (r1 @ ?s2) = r1" "dropWhile (is_digit py) (r1 @ ?s2) = ?s2"
    using assms(2) st2 by (simp_all add: takeWhile_run dropWhile_run)
  have 3: "(if ?s2 \<noteq> [] \<and> hd ?s2 = 58 then tl ?s2 else ?s2) = ?s3"
  proof (cases "sep = []")
    case False
    with assms(5) show ?thesis by simp
  next
    case True
    have "hd ?s3 \<noteq> 58" if "?s3 \<noteq> []"
    proof (cases "c2 = []")
      case False
      with assms(3) AZ_not_colon[of c2] show ?thesis by simp
    next
      case c2: True
      with True assms(7) have "r2 = []" by simp
      with c2 that assms(6) show ?thesis by auto
    qed
    with True show ?thesis by auto
  qed
  have 4: "takeWhile is_AZ (c2 @ ?s4) = c2" "dropWhile is_AZ (c2 @ ?s4) = ?s4"
    using assms(3) st4 by (simp_all add: takeWhile_run dropWhile_run)
  have 5: "takeWhile (is_digit py) (r2 @ nl) = r2" "dropWhile (is_digit py) (r2 @ nl) = nl"
    using assms(4) nlD by (simp_all add: takeWhile_run dropWhile_run)
  show ?thesis
    unfolding re_match_def Let_def 1 2 3 4 5 using assms(6) by simp
qed

lemma re_match_complete:
  assumes "list_all is_AZ c1" "list_all (is_digit py) r1" "list_all is_AZ c2" "list_all (is_digit py) r2"
    and "sep = [] \<or> sep = [58]" and "nl = [] \<or> nl = [10]"
  shows "re_match py (c1 @ r1 @ sep @ c2 @ r2 @ nl) \<noteq> None"
proof (cases "sep = []")
  case False
  with assms have "re_match py (c1 @ r1 @ sep @ c2 @ r2 @ nl) = Some (c1, r1, c2, r2)"
    by (intro re_match_groups) simp_all
  then show ?thesis by simp
next
  case True
  show ?thesis
  proof (cases "c2 = []")
    case c2: True
    have "re_match py (c1 @ (r1 @ r2) @ [] @ [] @ [] @ nl) = Some (c1, r1 @ r2, [], [])"
      using assms by (intro re_match_groups) simp_all
    with True c2 show ?thesis by simp
  next
    case c2: False
    show ?thesis
    proof (cases "r1 = []")
      case r1: True
      have "re_match py ((c1 @ c2) @ r2 @ [] @ [] @ [] @ nl) = Some (c1 @ c2, r2, [], [])"
        using assms by (intro re_match_groups) simp_all
      with True r1 show ?thesis by simp
    next
      case False
      with assms c2 have "re_match py (c1 @ r1 @ sep @ c2 @ r2 @ nl) = Some (c1, r1, c2, r2)"
        by (intro re_match_groups) simp_all
      then show ?thesis by simp
    qed
  qed
qed

lemma list_all_takeWhile: "list_all P (takeWhile P xs)"
  by (induction xs) simp_all

lemma re_match_sound:
  assumes "re_match py s = Some (c1, r1, c2, r2)"
  shows "\<exists>sep nl. s = c1 @ r1 @ sep @ c2 @ r2 @ nl
           \<and> list_all is_AZ c1 \<and> list_all (is_digit py) r1
           \<and> list_all is_AZ c2 \<and> list_all (is_digit py) r2
           \<and> (sep = [] \<or> sep = [58]) \<and> (nl = [] \<or> nl = [10])"
proof -
  define s1 where "s1 = dropWhile is_AZ s"
  define s2 where "s2 = dropWhile (is_digit py) s1"
  define s3 where "s3 = (if s2 \<noteq> [] \<and> hd s2 = 58 then tl s2 else s2)"
  define s4 where "s4 = dropWhile is_AZ s3"
  define s5 where "s5 = dropWhile (is_digit py) s4"
  from assms have g: "c1 = takeWhile is_AZ s" "r1 = takeWhile (is_digit py) s1"
    "c2 = takeWhile is_AZ s3" "r2 = takeWhile (is_digit py) s4" and e: "s5 = [] \<or> s5 = [10]"
    by (auto simp: re_match_def Let_def s1_def s2_def s3_def s4_def s5_def split: if_splits)
  obtain sep where sep: "s2 = sep @ s3" "sep = [] \<or> sep = [58]"
  proof (cases "s2 \<noteq> [] \<and> hd s2 = 58")
    case True
    then have "s2 = [58] @ s3" by (cases s2) (auto simp: s3_def)
    then show ?thesis using that by blast
  next
    case False
    then have "s2 = [] @ s3" by (auto simp: s3_def)
    then show ?thesis using that by blast
  qed
  have "s = c1 @ s1" "s1 = r1 @ s2" "s3 = c2 @ s4" "s4 = r2 @ s5"
    by (simp_all add: g s1_def s2_def s4_def s5_def)
  with sep(1) have "s = c1 @ r1 @ sep @ c2 @ r2 @ s5" by simp
  with sep(2) e show ?thesis
    by (auto simp: g list_all_takeWhile)
qed







lemma split_nonempty: "split sep s \<noteq> []"
  by (cases s) auto

lemma split_no_sep: "sep \<notin> set s \<Longrightarrow> split sep s = [s]"
  by (induction s) auto

lemma split_prefix: "sep \<notin> set p \<Longrightarrow> split sep (p @ sep # s) = p # split sep s"
  by (induction p) auto

lemma length_split: "sep \<in> set s \<Longrightarrow> 2 \<le> length (split sep s)"
proof (induction s)
  case Nil
  then show ?case by simp
next
  case (Cons c s)
  have "1 \<le> length (split sep s)"
    using split_nonempty[of sep s] by (cases "split sep s") auto
  with Cons show ?case by auto
qed

lemma strip_sheet_returns: "\<exists>t. strip_sheet range_str = Inr t"
  using length_split[of 33 range_str]
  by (auto simp: strip_sheet_def subscript_def)

lemma strip_sheet_prefix:
  assumes "33 \<notin> set sheet" "33 \<notin> set body"
  shows "strip_sheet (sheet @ [33] @ body) = Inr body"
  using assms by (simp add: strip_sheet_def split_prefix split_no_sep subscript_def)

lemma strip_sheet_none: "33 \<notin> set body \<Longrightarrow> strip_sheet body = Inr body"
  by (simp add: strip_sheet_def)

lemma strip_sheet_one_bang:
  assumes "33 \<notin> set sheet" "33 \<notin> set body" "t = body \<or> t = sheet @ [33] @ body"
  shows "strip_sheet t = Inr body"
  using assms strip_sheet_none[of body] strip_sheet_prefix[of sheet body] by auto

lemma bang_upper: "33 \<in> set s \<Longrightarrow> 33 \<in> set (upper py s)"
proof -
  assume "33 \<in> set s"
  moreover have "upper_char py 33 = [33]" by (simp add: upper_char_def)
  ultimately show ?thesis
    by (force simp: upper_def)
qed




lemmas parser_defs = parse_a1_range_def strip_sheet_def upper_def upper_char_def str_of_def
  re_match_def is_AZ_def is_digit_def digit_value_def col_to_index_def py_int_def
  exceeds_limit_def digits_value_def subscript_def ascii_python_def sharp_s_python_def


text \<open>
  C7, as stated: the parser fails exactly when the text is not of one of the accepted
  forms (single cell, rectangle, open column range, open row range). It fails for fewer
  texts: the empty text and \<^verbatim>\<open>A1B2\<close> are of none of these forms, and are parsed.
\<close>

theorem parse_fails_iff_counterexample:
  "\<not> accepted_form ascii_python (upper ascii_python (str_of ''''))
   \<and> parse_a1_range ascii_python (str_of '''') 7
       = Inr \<lparr>sheetId = 7, startColumnIndex = None, endColumnIndex = None,
               startRowIndex = None, endRowIndex = None\<rparr>
   \<and> \<not> accepted_form ascii_python (upper ascii_python (str_of ''A1B2''))
   \<and> parse_a1_range ascii_python (str_of ''A1B2'') 7
       = Inr \<lparr>sheetId = 7, startColumnIndex = Some 0, endColumnIndex = Some 2,
               startRowIndex = Some 0, endRowIndex = Some 2\<rparr>"
  by (simp add: parser_defs accepted_form_def token_def)

lemma exceeds_limit_mono: "exceeds_limit py n \<Longrightarrow> n \<le> m \<Longrightarrow> exceeds_limit py m"
  by (auto simp: exceeds_limit_def)

lemma token_parts:
  "token py s = (c, r, rest) \<Longrightarrow> s = c @ r @ rest \<and> list_all is_AZ c \<and> list_all (is_digit py) r"
  by (auto simp: token_def list_all_takeWhile)

lemma accepted_form_matches:
  assumes "accepted_form py s"
  shows "\<exists>c1 r1 sep c2 r2. s = c1 @ r1 @ sep @ c2 @ r2
           \<and> list_all is_AZ c1 \<and> list_all (is_digit py) r1 \<and> (sep = [] \<or> sep = [58])
           \<and> list_all is_AZ c2 \<and> list_all (is_digit py) r2"
proof -
  obtain c1 r1 rest where t1: "token py s = (c1, r1, rest)"
    by (cases "token py s") auto
  from token_parts[OF t1] have s: "s = c1 @ r1 @ rest" and cl: "list_all is_AZ c1" "list_all (is_digit py) r1"
    by simp_all
  show ?thesis
  proof (cases "rest = []")
    case True
    with s have "s = c1 @ r1 @ [] @ [] @ []" by simp
    with cl show ?thesis
      by (intro exI[of _ c1] exI[of _ r1] exI[of _ "[]"]) simp
  next
    case False
    obtain c2 r2 rest' where t2: "token py (tl rest) = (c2, r2, rest')"
      by (cases "token py (tl rest)") auto
    from assms t1 t2 False have h: "hd rest = 58" "rest' = []"
      by (simp_all add: accepted_form_def)
    from token_parts[OF t2] h(2) have tl: "tl rest = c2 @ r2"
      and cl2: "list_all is_AZ c2" "list_all (is_digit py) r2"
      by simp_all
    from False h(1) tl have "rest = [58] @ c2 @ r2"
      by (cases rest) auto
    with s have "s = c1 @ r1 @ [58] @ c2 @ r2" by simp
    with cl cl2 show ?thesis
      by (intro exI[of _ c1] exI[of _ r1] exI[of _ "[58]"] exI[of _ c2] exI[of _ r2]) simp
  qed
qed

lemma parse_error_kinds:
  assumes "strip_sheet t = Inr body" "re_match py (upper py body) = Some (c1, r1, c2, r2)"
    and "parse_a1_range py t sheet_id = Inl err"
  shows "exceeds_limit py (length r1) \<or> exceeds_limit py (length r2)"
  using assms
  by (auto simp: parse_a1_range_def py_int_def split: if_splits sum.splits)

text \<open>
  C7, amended: for a text with at most one \<^verbatim>\<open>!\<close>, the body being what follows it, and
  whose upper-cased body does not end with a line feed, the parser raises its error
  "Invalid A1 notation" exactly when the upper-cased body is not of the shape letters,
  digits, optional colon, letters, digits, where every part may be empty; when the body is
  no longer than the interpreter lets \<^verbatim>\<open>int\<close> convert, this is the only way in
  which the call fails; every text of an accepted form is let through; and no end bound
  is compared with a start bound: \<^verbatim>\<open>D10:A1\<close> is parsed, with ends that lie before
  the starts.
\<close>

theorem parse_fails_iff:
  assumes "33 \<notin> set sheet" and "33 \<notin> set body" and "t = body \<or> t = sheet @ [33] @ body"
    and "upper py body = [] \<or> last (upper py body) \<noteq> 10"
  shows "(parse_a1_range py t sheet_id = Inl (ValueError (Invalid_A1_notation body)) \<longleftrightarrow>
           \<not> (\<exists>c1 r1 sep c2 r2. upper py body = c1 @ r1 @ sep @ c2 @ r2
                 \<and> list_all is_AZ c1 \<and> list_all (is_digit py) r1 \<and> (sep = [] \<or> sep = [58])
                 \<and> list_all is_AZ c2 \<and> list_all (is_digit py) r2))
       \<and> (\<not> exceeds_limit py (length (upper py body)) \<longrightarrow>
            isl (parse_a1_range py t sheet_id)
            = (parse_a1_range py t sheet_id = Inl (ValueError (Invalid_A1_notation body))))
       \<and> (accepted_form py (upper py body) \<longrightarrow>
            parse_a1_range py t sheet_id \<noteq> Inl (ValueError (Invalid_A1_notation body)))
       \<and> parse_a1_range py (str_of ''D10:A1'') sheet_id
           = Inr \<lparr>sheetId = sheet_id, startColumnIndex = Some 3, endColumnIndex = Some 1,
                  startRowIndex = Some 9, endRowIndex = Some 1\<rparr>"
proof -
  define pat where "pat u \<longleftrightarrow>
    (\<exists>c1 r1 sep c2 r2. u = c1 @ r1 @ sep @ c2 @ r2
        \<and> list_all is_AZ c1 \<and> list_all (is_digit py) r1 \<and> (sep = [] \<or> sep = [58])
        \<and> list_all is_AZ c2 \<and> list_all (is_digit py) r2)" for u
  let ?u = "upper py body"
  let ?invalid = "parse_a1_range py t sheet_id = Inl (ValueError (Invalid_A1_notation body))"
  have st: "strip_sheet t = Inr body"
    using assms(1-3) by (rule strip_sheet_one_bang)
  have a: "pat ?u" if "re_match py ?u \<noteq> None"
  proof -
    from that obtain c1 r1 c2 r2 where "re_match py ?u = Some (c1, r1, c2, r2)"
      by (cases "re_match py ?u") auto
    from re_match_sound[OF this] obtain sep nl where u: "?u = c1 @ r1 @ sep @ c2 @ r2 @ nl"
      and cl: "list_all is_AZ c1" "list_all (is_digit py) r1" "list_all is_AZ c2"
        "list_all (is_digit py) r2" "sep = [] \<or> sep = [58]" and nl: "nl = [] \<or> nl = [10]"
      by (elim exE conjE)
    have "nl = []"
    proof (rule ccontr)
      assume "nl \<noteq> []"
      with nl have "nl = [10]" by simp
      with u have "?u \<noteq> []" "last ?u = 10" by simp_all
      with assms(4) show False by simp
    qed
    with u have "?u = c1 @ r1 @ sep @ c2 @ r2" by simp
    with cl show ?thesis
      unfolding pat_def
      by (intro exI[of _ c1] exI[of _ r1] exI[of _ sep] exI[of _ c2] exI[of _ r2]) simp
  qed
  have b: "re_match py ?u \<noteq> None" if "pat ?u"
  proof -
    from that obtain c1 r1 sep c2 r2 where u: "?u = c1 @ r1 @ sep @ c2 @ r2"
      and h: "list_all is_AZ c1" "list_all (is_digit py) r1" "sep = [] \<or> sep = [58]"
        "list_all is_AZ c2" "list_all (is_digit py) r2"
      unfolding pat_def by (elim exE conjE)
    have "re_match py (c1 @ r1 @ sep @ c2 @ r2 @ []) \<noteq> None"
      using h(1,2,4,5,3) by (rule re_match_complete) simp
    with u show ?thesis by simp
  qed
  have c: "?invalid \<longleftrightarrow> re_match py ?u = None"
    by (cases "re_match py ?u")
       (auto simp: parse_a1_range_def st py_int_def split: prod.splits if_splits sum.splits)
  from a b c have 1: "?invalid \<longleftrightarrow> \<not> pat ?u" by metis
  have 2: "isl (parse_a1_range py t sheet_id) = ?invalid" if lim: "\<not> exceeds_limit py (length ?u)"
  proof (cases "re_match py ?u")
    case None
    with c show ?thesis by simp
  next
    case (Some g)
    then obtain c1 r1 c2 r2 where g: "re_match py ?u = Some (c1, r1, c2, r2)"
      by (cases g) auto
    from re_match_sound[OF g] obtain sep nl where "?u = c1 @ r1 @ sep @ c2 @ r2 @ nl"
      by (elim exE conjE)
    then have "length ?u = length c1 + length r1 + length sep + length c2 + length r2 + length nl"
      by simp
    then have "length r1 \<le> length ?u" "length r2 \<le> length ?u" by simp_all
    with lim have "\<not> exceeds_limit py (length r1)" "\<not> exceeds_limit py (length r2)"
      by (auto dest: exceeds_limit_mono)
    with parse_error_kinds[OF st g] have "\<not> isl (parse_a1_range py t sheet_id)"
      by (cases "parse_a1_range py t sheet_id") auto
    moreover from c g have "\<not> ?invalid" by simp
    ultimately show ?thesis by simp
  qed
  have 3: "\<not> ?invalid" if "accepted_form py ?u"
  proof -
    from accepted_form_matches[OF that] have "pat ?u" unfolding pat_def .
    with 1 show ?thesis by simp
  qed
  have 4: "parse_a1_range py (str_of ''D10:A1'') sheet_id
           = Inr \<lparr>sheetId = sheet_id, startColumnIndex = Some 3, endColumnIndex = Some 1,
                  startRowIndex = Some 9, endRowIndex = Some 1\<rparr>"
    by (simp add: parse_a1_range_def strip_sheet_def upper_def upper_char_def str_of_def
          re_match_def is_AZ_def is_digit_def digit_value_def col_to_index_def py_int_def
          exceeds_limit_def digits_value_def)
  from 1 2 3 4 show ?thesis
    unfolding pat_def by (intro conjI impI)
qed

text \<open>The text \<^verbatim>\<open>Sheet1!A1;\<close> raises the error, so that its body is not of the
  pattern's shape.\<close>

theorem parse_fails_iff_witness:
  "parse_a1_range ascii_python (str_of ''Sheet1!A1;'') 7
     = Inl (ValueError (Invalid_A1_notation (str_of ''A1;'')))
   \<and> \<not> (\<exists>c1 r1 sep c2 r2. upper ascii_python (str_of ''A1;'') = c1 @ r1 @ sep @ c2 @ r2
           \<and> list_all is_AZ c1 \<and> list_all (is_digit ascii_python) r1 \<and> (sep = [] \<or> sep = [58])
           \<and> list_all is_AZ c2 \<and> list_all (is_digit ascii_python) r2)
   \<and> isl (parse_a1_range ascii_python (str_of ''Sheet1!A1;'') 7)"
proof -
  have h1: "33 \<notin> set (str_of ''Sheet1'')" and h2: "33 \<notin> set (str_of ''A1;'')"
    and h3: "str_of ''Sheet1!A1;'' = str_of ''A1;'' \<or> str_of ''Sheet1!A1;'' = str_of ''Sheet1'' @ [33] @ str_of ''A1;''"
    and h4: "upper ascii_python (str_of ''A1;'') = [] \<or> last (upper ascii_python (str_of ''A1;'')) \<noteq> 10"
    by (simp_all add: str_of_def upper_def upper_char_def)
  have e: "parse_a1_range ascii_python (str_of ''Sheet1!A1;'') 7
     = Inl (ValueError (Invalid_A1_notation (str_of ''A1;'')))"
    by (simp add: parser_defs)
  have l: "\<not> exceeds_limit ascii_python (length (upper ascii_python (str_of ''A1;'')))"
    by (simp add: exceeds_limit_def str_of_def upper_def upper_char_def)
  from parse_fails_iff[OF h1 h2 h3 h4, where sheet_id = 7] e l show ?thesis
    by blast
qed

lemma upper_append: "upper py (xs @ ys) = upper py xs @ upper py ys"
  by (simp add: upper_def)

lemma upper_Cons: "upper py (c # cs) = upper_char py c @ upper py cs"
  by (simp add: upper_def)

lemma upper_idem:
  "list_all (\<lambda>c. upper py (upper_char py c) = upper_char py c) s \<Longrightarrow> upper py (upper py s) = upper py s"
  by (induction s) (simp_all add: upper_Cons upper_append, simp add: upper_def)

lemma split_append_no_sep:
  "sep \<notin> set p \<Longrightarrow> split sep (p @ s) = (p @ hd (split sep s)) # tl (split sep s)"
proof (induction p)
  case Nil
  then show ?case using split_nonempty[of sep s] by simp
next
  case (Cons c p)
  then show ?case by simp
qed

lemma split_upper:
  assumes "list_all (\<lambda>c. c \<noteq> 33 \<longrightarrow> 33 \<notin> set (upper_char py c)) s"
  shows "split 33 (upper py s) = map (upper py) (split 33 s)"
  using assms
proof (induction s)
  case Nil
  show ?case by (simp add: upper_def)
next
  case (Cons c s)
  then have ih: "split 33 (upper py s) = map (upper py) (split 33 s)" by simp
  obtain p ps where sp: "split 33 s = p # ps"
    using split_nonempty[of 33 s] by (cases "split 33 s") auto
  show ?case
  proof (cases "c = 33")
    case True
    then have "upper_char py c = [33]" by (simp add: upper_char_def)
    with True ih show ?thesis by (simp add: upper_Cons) (simp add: upper_def)
  next
    case False
    with Cons.prems have "33 \<notin> set (upper_char py c)" by simp
    from split_append_no_sep[OF this, of "upper py s"] ih sp False show ?thesis
      by (simp add: upper_Cons)
  qed
qed

lemma bang_upper_iff:
  assumes "list_all (\<lambda>c. c \<noteq> 33 \<longrightarrow> 33 \<notin> set (upper_char py c)) s"
  shows "33 \<in> set (upper py s) \<longleftrightarrow> 33 \<in> set s"
proof
  assume "33 \<in> set (upper py s)"
  then obtain c where "c \<in> set s" "33 \<in> set (upper_char py c)"
    by (auto simp: upper_def)
  with assms show "33 \<in> set s" by (auto simp: list_all_iff)
next
  assume "33 \<in> set s"
  then show "33 \<in> set (upper py s)" by (rule bang_upper)
qed

lemma split_pieces: "p \<in> set (split sep s) \<Longrightarrow> set p \<subseteq> set s"
proof (induction s arbitrary: p)
  case Nil
  then show ?case by simp
next
  case (Cons c s)
  obtain q qs where sp: "split sep s = q # qs"
    using split_nonempty[of sep s] by (cases "split sep s") auto
  with Cons.IH have "set q \<subseteq> set s" "\<And>x. x \<in> set qs \<Longrightarrow> set x \<subseteq> set s"
    by simp_all
  with Cons.prems sp show ?case
    by (auto split: if_splits)
qed

lemma strip_sheet_piece: "strip_sheet t = Inr s \<Longrightarrow> set s \<subseteq> set t"
proof -
  assume a: "strip_sheet t = Inr s"
  show ?thesis
  proof (cases "33 \<in> set t")
    case False
    with a show ?thesis by (simp add: strip_sheet_def)
  next
    case True
    from length_split[OF True] a True have "s = split 33 t ! 1" "1 < length (split 33 t)"
      by (auto simp: strip_sheet_def subscript_def)
    then have "s \<in> set (split 33 t)" by simp
    then show ?thesis by (rule split_pieces)
  qed
qed

lemma strip_sheet_upper:
  assumes "list_all (\<lambda>c. c \<noteq> 33 \<longrightarrow> 33 \<notin> set (upper_char py c)) t" and "strip_sheet t = Inr s"
  shows "strip_sheet (upper py t) = Inr (upper py s)"
proof (cases "33 \<in> set t")
  case False
  with assms show ?thesis
    by (simp add: strip_sheet_def bang_upper_iff)
next
  case True
  from length_split[OF True] have l: "1 < length (split 33 t)" by simp
  with assms(2) True have s: "s = split 33 t ! 1"
    by (auto simp: strip_sheet_def subscript_def)
  from True assms(1) have "33 \<in> set (upper py t)" by (simp add: bang_upper_iff)
  with l s split_upper[OF assms(1)] show ?thesis
    by (simp add: strip_sheet_def subscript_def)
qed

lemma parse_upper_same:
  assumes "list_all (\<lambda>c. upper py (upper_char py c) = upper_char py c
                        \<and> (c \<noteq> 33 \<longrightarrow> 33 \<notin> set (upper_char py c))) t"
  shows "returned (parse_a1_range py (upper py t) sheet_id) = returned (parse_a1_range py t sheet_id)"
proof -
  from strip_sheet_returns obtain s where s: "strip_sheet t = Inr s" by blast
  from assms have b: "list_all (\<lambda>c. c \<noteq> 33 \<longrightarrow> 33 \<notin> set (upper_char py c)) t"
    by (simp add: list_all_iff)
  have u: "strip_sheet (upper py t) = Inr (upper py s)"
    using b s by (rule strip_sheet_upper)
  from strip_sheet_piece[OF s] assms
  have "list_all (\<lambda>c. upper py (upper_char py c) = upper_char py c) s"
    by (auto simp: list_all_iff)
  then have i: "upper py (upper py s) = upper py s" by (rule upper_idem)
  show ?thesis
    by (cases "re_match py (upper py s)")
       (simp_all add: parse_a1_range_def s u i returned_def split: prod.splits sum.splits)
qed

text \<open>With a table that has nothing beyond ASCII, this holds for every text.\<close>

lemma parse_case_insensitive_ascii_table:
  "returned (parse_a1_range ascii_python (upper ascii_python t) sheet_id)
   = returned (parse_a1_range ascii_python t sheet_id)"
proof (rule parse_upper_same)
  have "upper ascii_python (upper_char ascii_python c) = upper_char ascii_python c
        \<and> (c \<noteq> 33 \<longrightarrow> 33 \<notin> set (upper_char ascii_python c))" for c
    by (auto simp: upper_def upper_char_def ascii_python_def)
  then show "list_all (\<lambda>c. upper ascii_python (upper_char ascii_python c) = upper_char ascii_python c
                        \<and> (c \<noteq> 33 \<longrightarrow> 33 \<notin> set (upper_char ascii_python c))) t"
    by (simp add: list_all_iff)
qed

text \<open>
  C10: a range text and its upper-cased form give the same result: the same
  \<^verbatim>\<open>GridRange\<close>, or an error for both. What is used of the interpreter's table
  for the characters of the text is that upper-casing an upper-cased character changes
  nothing and that only \<^verbatim>\<open>!\<close> gives a \<^verbatim>\<open>!\<close>; on ASCII characters both hold by
  the definition of \<open>upper_char\<close>.
\<close>

theorem parse_case_insensitive:
  assumes "list_all (\<lambda>c. upper py (upper_char py c) = upper_char py c
                        \<and> (c \<noteq> 33 \<longrightarrow> 33 \<notin> set (upper_char py c))) t"
  shows "returned (parse_a1_range py (upper py t) sheet_id) = returned (parse_a1_range py t sheet_id)"
  using assms by (rule parse_upper_same)

text \<open>The text of \<open>U+00DF\<close> followed by \<^verbatim>\<open>1:d10\<close>, whose upper case is
  \<^verbatim>\<open>SS1:D10\<close>: both are parsed to the columns from \<^verbatim>\<open>SS\<close> to \<^verbatim>\<open>D\<close>.\<close>

theorem parse_case_insensitive_witness:
  "returned (parse_a1_range sharp_s_python (upper sharp_s_python ([223] @ str_of ''1:d10'')) 7)
     = Some \<lparr>sheetId = 7, startColumnIndex = Some 512, endColumnIndex = Some 4,
              startRowIndex = Some 0, endRowIndex = Some 10\<rparr>
   \<and> upper sharp_s_python ([223] @ str_of ''1:d10'') = str_of ''SS1:D10''"
proof -
  let ?t = "[223] @ str_of ''1:d10''"
  have h: "list_all (\<lambda>c. upper sharp_s_python (upper_char sharp_s_python c) = upper_char sharp_s_python c
                        \<and> (c \<noteq> 33 \<longrightarrow> 33 \<notin> set (upper_char sharp_s_python c))) ?t"
    by (simp add: upper_def upper_char_def sharp_s_python_def str_of_def)
  have e: "returned (parse_a1_range sharp_s_python ?t 7)
     = Some \<lparr>sheetId = 7, startColumnIndex = Some 512, endColumnIndex = Some 4,
              startRowIndex = Some 0, endRowIndex = Some 10\<rparr>"
    by (simp add: parser_defs returned_def)
  have u: "upper sharp_s_python ?t = str_of ''SS1:D10''"
    by (simp add: upper_def upper_char_def sharp_s_python_def str_of_def)
  from parse_case_insensitive[OF h, of 7] e u show ?thesis by simp
qed

end
